theory Spec2Isabelle
  imports Main
begin

section \<open>The rooms adapter: data model\<close>

text \<open>
  The adapter (class \<open>RoomsSDKAdapter\<close>) holds three fields: the cache
  \<open>getRoomObservables\<close>, the cache \<open>getRoomActivitiesCache\<close> and the counter
  \<open>listenerCount\<close>. Everything else it touches belongs to its collaborators: the data
  source (\<open>datasource.rooms\<close>, \<open>datasource.internal.mercury\<close>), the promises returned by
  \<open>rooms.get\<close>, and the stream objects built from the RxJS operators. The model keeps all of
  it in one record and passes it through every operation.

  Object identity is modelled by position: a stream built by \<open>getRoom\<close> is its index in
  \<open>streams\<close>, a subject built by \<open>getRoomActivities\<close> its index in \<open>subjects\<close>, and the promise
  returned by the n-th call of \<open>rooms.get\<close> is the index n in \<open>promises\<close>.

  Room identifiers are strings; the two caches are JavaScript objects used as dictionaries
  and are modelled as maps. Identifiers are taken to be room identifiers as the SDK issues
  them, which are never names of properties that a plain object inherits.
  \<open>listenerCount\<close> is a JavaScript number that only ever changes by one; it is an \<open>int\<close>.
\<close>

type_synonym room_id = string
type_synonym handle = nat
type_synonym promise = nat
type_synonym observer = nat

datatype error = TypeError | SdkError string

text \<open>What \<open>datasource.rooms.get\<close> resolves to, and the room \<open>fetchRoom\<close> makes of it.\<close>

record sdk_room =
  sdk_id :: string
  sdk_title :: string
  sdk_type :: string

record room =
  ID :: string
  title :: string
  type :: string

datatype 'a promise_state = Pending | Fulfilled 'a | Rejected error

text \<open>
  The log of calls. \<open>RoomsListen\<close>, \<open>RoomsStopListening\<close>, \<open>RoomsGet\<close> and \<open>MercuryOn\<close> are the
  calls made on the data source; \<open>StartListeningToRoomUpdates\<close> and
  \<open>StopListeningToRoomUpdates\<close> record that the adapter's own two gate methods were entered.
\<close>

datatype call =
    StartListeningToRoomUpdates
  | StopListeningToRoomUpdates
  | RoomsListen
  | RoomsStopListening
  | RoomsGet room_id
  | MercuryOn room_id

text \<open>
  A notification received by an observer of a room stream. A snapshot carries, besides the
  room, the promise it was read from: the snapshot is the initial one when that promise is
  the stream's \<open>room_promise\<close>, and is derived from an update event otherwise.
\<close>

datatype notification = Next promise room | Error error

text \<open>
  The state of the connection of a room stream to its source
  \<open>concat(room$, roomUpdate$)\<close>: either it still waits for \<open>room$\<close> (the promise of the
  first fetch), or \<open>room$\<close> has completed and it listens to the \<open>updated\<close> events, with the
  promises of the re-fetches that \<open>flatMap\<close> has started and not yet seen settle.
\<close>

datatype phase = AwaitingRoom | ListeningForUpdates "promise list"

text \<open>
  The stream stored in \<open>getRoomObservables[ID]\<close>:
  \<open>concat(room$, roomUpdate$).pipe(tap, finalize).pipe(publishReplay(1), refCount())\<close>.
  \<open>observers\<close> are the subscribers of the replay subject (their number is the reference
  count), \<open>buffer\<close> its one-element replay buffer, \<open>thrownError\<close> the error it stopped with,
  \<open>connection\<close> the subscription to the source, absent while nobody is subscribed.
\<close>

record stream =
  room_id :: room_id
  room_promise :: promise
  observers :: "observer list"
  buffer :: "(promise \<times> room) option"
  thrownError :: "error option"
  connection :: "phase option"

text \<open>The activity record built by the handler of \<open>getRoomActivities\<close>, and the raw event.\<close>

record sdk_target =
  target_id :: "string option"

record sdk_object =
  objectType :: "string option"

record sdk_actor =
  actor_id :: "string option"

record sdk_activity =
  activity_id :: "string option"
  target :: "sdk_target option"
  object :: "sdk_object option"
  actor :: "sdk_actor option"
  published :: "string option"

record activity =
  activity_ID :: "string option"
  roomID :: "string option"
  content :: "sdk_object option"
  contentType :: "string option"
  personID :: "string option"
  displayAuthor :: bool
  created :: "string option"

text \<open>The value held by a \<open>BehaviorSubject({})\<close>: the empty placeholder or an activity.\<close>

datatype activity_value = Placeholder | Activity activity

record subject =
  current :: activity_value
  watchers :: "observer list"

text \<open>The payload of an \<open>updated\<close> event: \<open>{data: {id}}\<close>, each level possibly absent.\<close>

record event_data =
  data_id :: "string option"

record updated_event =
  data :: "event_data option"

text \<open>
  The state. The first three fields are the adapter's own. \<open>streams\<close>, \<open>subjects\<close> and
  \<open>promises\<close> hold the objects made so far. \<open>listeners\<close> are the handlers of the \<open>updated\<close>
  event registered on \<open>datasource.rooms\<close>, each named by the stream it feeds, and \<open>handlers\<close>
  the handlers registered on mercury, each with the room it was made for and the subject
  it feeds, both in order of registration. \<open>calls\<close> is the log of calls. An observer is named
  by a number and holds at most one subscription to a stream at a time; \<open>inbox\<close> and
  \<open>activity_inbox\<close> give, for a stream or subject and an observer, the notifications the
  observer has received from it. \<open>thrown\<close> collects the exceptions that left an event handler.
\<close>

record adapter =
  listenerCount :: int
  getRoomObservables :: "room_id \<rightharpoonup> handle"
  getRoomActivitiesCache :: "room_id \<rightharpoonup> handle"
  streams :: "stream list"
  subjects :: "subject list"
  promises :: "sdk_room option promise_state list"
  listeners :: "handle list"
  handlers :: "(room_id \<times> handle) list"
  calls :: "call list"
  inbox :: "handle \<times> observer \<Rightarrow> notification list"
  activity_inbox :: "handle \<times> observer \<Rightarrow> activity_value list"
  thrown :: "error list"

text \<open>The adapter as its constructor leaves it, with a data source nothing has called yet.\<close>

definition init :: adapter where
  "init = \<lparr> listenerCount = 0,
            getRoomObservables = Map.empty,
            getRoomActivitiesCache = Map.empty,
            streams = [],
            subjects = [],
            promises = [],
            listeners = [],
            handlers = [],
            calls = [],
            inbox = (\<lambda>_. []),
            activity_inbox = (\<lambda>_. []),
            thrown = [] \<rparr>"

definition log :: "call \<Rightarrow> adapter \<Rightarrow> adapter" where
  "log c s = s\<lparr>calls := calls s @ [c]\<rparr>"

section \<open>The gate: startListeningToRoomUpdates and stopListeningToRoomUpdates\<close>

definition startListeningToRoomUpdates :: "adapter \<Rightarrow> adapter" where
  "startListeningToRoomUpdates s0 =
     (let s = log StartListeningToRoomUpdates s0;
          s1 = (if listenerCount s = 0 then log RoomsListen s else s)
      in s1\<lparr>listenerCount := listenerCount s1 + 1\<rparr>)"

definition stopListeningToRoomUpdates :: "adapter \<Rightarrow> adapter" where
  "stopListeningToRoomUpdates s0 =
     (let s = log StopListeningToRoomUpdates s0;
          s1 = s\<lparr>listenerCount := listenerCount s - 1\<rparr>
      in if listenerCount s1 \<le> 0 then log RoomsStopListening s1 else s1)"

text \<open>A finite sequence of calls of the two gate methods.\<close>

datatype gate_op = Acquire | Release

fun gate_step :: "gate_op \<Rightarrow> adapter \<Rightarrow> adapter" where
  "gate_step Acquire s = startListeningToRoomUpdates s"
| "gate_step Release s = stopListeningToRoomUpdates s"

fun gate_run :: "gate_op list \<Rightarrow> adapter \<Rightarrow> adapter" where
  "gate_run [] s = s"
| "gate_run (g # gs) s = gate_run gs (gate_step g s)"

text \<open>
  \<open>paired n gs\<close>: starting with \<open>n\<close> acquisitions outstanding, no release in \<open>gs\<close> comes
  without an acquisition still outstanding.
\<close>

fun paired :: "nat \<Rightarrow> gate_op list \<Rightarrow> bool" where
  "paired n [] = True"
| "paired n (Acquire # gs) = paired (Suc n) gs"
| "paired n (Release # gs) = (0 < n \<and> paired (n - 1) gs)"

text \<open>
  \<open>alternating l cs\<close>: in the log \<open>cs\<close>, read with the update channel on (\<open>l\<close>) or off at
  its start, \<open>rooms.listen\<close> is never called while the channel is on, that is, never twice
  without \<open>rooms.stopListening\<close> in between.
\<close>

fun alternating :: "bool \<Rightarrow> call list \<Rightarrow> bool" where
  "alternating l [] = True"
| "alternating l (RoomsListen # cs) = (\<not> l \<and> alternating True cs)"
| "alternating l (RoomsStopListening # cs) = alternating False cs"
| "alternating l (c # cs) = alternating l cs"

text \<open>The state of the channel after a log: on exactly when the last of the two calls was \<open>rooms.listen\<close>.\<close>

fun channel :: "bool \<Rightarrow> call list \<Rightarrow> bool" where
  "channel l [] = l"
| "channel l (RoomsListen # cs) = channel True cs"
| "channel l (RoomsStopListening # cs) = channel False cs"
| "channel l (c # cs) = channel l cs"

section \<open>Room streams\<close>

text \<open>
  The operators that \<open>getRoom\<close> composes behave as in RxJS 6: \<open>from\<close> of a promise sends
  the value and completes, or sends the error, in a callback that runs after the promise
  has settled; \<open>concat\<close> subscribes to its second source when the first completes;
  \<open>fromEvent\<close> registers a handler when subscribed to and removes it when unsubscribed;
  \<open>publishReplay(1)\<close> with \<open>refCount()\<close> shares one replay subject, connects the source
  with the first observer and unsubscribes the connection with the last. Logging (the calls
  of \<open>logger\<close>, and so the \<open>tap\<close> operator) changes nothing and is left out; the calls on the
  data source are taken to return normally.
\<close>

text \<open>
  \<open>fetchRoom\<close> is an async function: it calls \<open>datasource.rooms.get(ID)\<close> at once and
  returns a promise. Destructuring \<open>{id, title, type}\<close> from a result that is
  \<open>undefined\<close> or \<open>null\<close> throws, which rejects the promise of \<open>fetchRoom\<close>.
\<close>

definition fetchRoom_result :: "sdk_room option promise_state \<Rightarrow> room promise_state" where
  "fetchRoom_result g =
     (case g of
        Pending \<Rightarrow> Pending
      | Rejected e \<Rightarrow> Rejected e
      | Fulfilled None \<Rightarrow> Rejected TypeError
      | Fulfilled (Some r) \<Rightarrow> Fulfilled \<lparr>ID = sdk_id r, title = sdk_title r, type = sdk_type r\<rparr>)"

definition fetchRoom :: "room_id \<Rightarrow> adapter \<Rightarrow> promise \<times> adapter" where
  "fetchRoom i s = (length (promises s), (log (RoomsGet i) s)\<lparr>promises := promises s @ [Pending]\<rparr>)"

definition deliver ::
  "handle \<Rightarrow> observer list \<Rightarrow> 'n \<Rightarrow> (handle \<times> observer \<Rightarrow> 'n list) \<Rightarrow> handle \<times> observer \<Rightarrow> 'n list" where
  "deliver h obs n box = (\<lambda>k. if fst k = h \<and> snd k \<in> set obs then box k @ [n] else box k)"

text \<open>The replay subject takes a snapshot: it is buffered and sent to every observer.\<close>

definition next_room :: "handle \<Rightarrow> promise \<Rightarrow> room \<Rightarrow> adapter \<Rightarrow> adapter" where
  "next_room h p r s =
     (let st = streams s ! h
      in s\<lparr>streams := (streams s)[h := st\<lparr>buffer := Some (p, r)\<rparr>],
           inbox := deliver h (observers st) (Next p r) (inbox s)\<rparr>)"

text \<open>The callback given to \<open>finalize\<close> in \<open>getRoom\<close>.\<close>

definition finalize :: "handle \<Rightarrow> adapter \<Rightarrow> adapter" where
  "finalize h s =
     (let s1 = stopListeningToRoomUpdates s
      in s1\<lparr>getRoomObservables := (getRoomObservables s1)(room_id (streams s1 ! h) := None)\<rparr>)"

text \<open>
  The connection is unsubscribed: the \<open>finalize\<close> callback runs, the handler that
  \<open>fromEvent\<close> registered is removed, and the callbacks still waiting on promises are dead.
\<close>

definition disconnect :: "handle \<Rightarrow> adapter \<Rightarrow> adapter" where
  "disconnect h s =
     (let s1 = finalize h s;
          st = streams s1 ! h
      in s1\<lparr>streams := (streams s1)[h := st\<lparr>connection := None\<rparr>],
            listeners := removeAll h (listeners s1)\<rparr>)"

text \<open>
  The source sends an error: the connection is unsubscribed (running \<open>finalize\<close>), the subject
  stops with the error and passes it to every observer, which ends their subscriptions.
\<close>

definition fail :: "handle \<Rightarrow> error \<Rightarrow> adapter \<Rightarrow> adapter" where
  "fail h e s =
     (let s1 = disconnect h s;
          st = streams s1 ! h
      in s1\<lparr>streams := (streams s1)[h := st\<lparr>observers := [], thrownError := Some e\<rparr>],
            inbox := deliver h (observers st) (Error e) (inbox s1)\<rparr>)"

definition new_stream :: "room_id \<Rightarrow> promise \<Rightarrow> stream" where
  "new_stream i p =
     \<lparr>room_id = i, room_promise = p, observers = [], buffer = None,
      thrownError = None, connection = None\<rparr>"

definition getRoom :: "room_id \<Rightarrow> adapter \<Rightarrow> handle \<times> adapter" where
  "getRoom i s =
     (case getRoomObservables s i of
        Some h \<Rightarrow> (h, s)
      | None \<Rightarrow>
          (let s1 = startListeningToRoomUpdates s;
               (p, s2) = fetchRoom i s1;
               h = length (streams s2)
           in (h, s2\<lparr>streams := streams s2 @ [new_stream i p],
                      getRoomObservables := (getRoomObservables s2)(i \<mapsto> h)\<rparr>)))"

text \<open>
  An observer subscribes to a stream. \<open>refCount\<close> first subscribes it to the replay subject,
  which replays the buffer and, if it has stopped with an error, sends the error and ends
  the subscription; otherwise \<open>refCount\<close> connects the source unless it is connected.
\<close>

definition replay :: "stream \<Rightarrow> notification list" where
  "replay st = (case buffer st of None \<Rightarrow> [] | Some (p, r) \<Rightarrow> [Next p r])"

definition subscribe :: "handle \<Rightarrow> observer \<Rightarrow> adapter \<Rightarrow> adapter" where
  "subscribe h ob s =
     (if h < length (streams s) \<and> ob \<notin> set (observers (streams s ! h)) then
        (let st = streams s ! h
         in case thrownError st of
              Some e \<Rightarrow> s\<lparr>inbox := (inbox s)((h, ob) := inbox s (h, ob) @ replay st @ [Error e])\<rparr>
            | None \<Rightarrow>
                s\<lparr>streams := (streams s)[h := st\<lparr>observers := observers st @ [ob],
                      connection := (case connection st of
                                       None \<Rightarrow> Some AwaitingRoom
                                     | Some c \<Rightarrow> Some c)\<rparr>],
                  inbox := (inbox s)((h, ob) := inbox s (h, ob) @ replay st)\<rparr>)
      else s)"

text \<open>An observer unsubscribes; when it was the last one, \<open>refCount\<close> unsubscribes the connection.\<close>

definition unsubscribe :: "handle \<Rightarrow> observer \<Rightarrow> adapter \<Rightarrow> adapter" where
  "unsubscribe h ob s =
     (if h < length (streams s) \<and> ob \<in> set (observers (streams s ! h)) then
        (let st = streams s ! h;
             rest = removeAll ob (observers st);
             s1 = s\<lparr>streams := (streams s)[h := st\<lparr>observers := rest\<rparr>]\<rparr>
         in if rest = [] \<and> connection st \<noteq> None then disconnect h s1 else s1)
      else s)"

text \<open>The data source settles the promise of a \<open>rooms.get\<close> call.\<close>

definition settle :: "promise \<Rightarrow> sdk_room option promise_state \<Rightarrow> adapter \<Rightarrow> adapter" where
  "settle p g s =
     (if p < length (promises s) \<and> promises s ! p = Pending
      then s\<lparr>promises := (promises s)[p := g]\<rparr> else s)"

text \<open>
  The callbacks that \<open>from(promise)\<close> attached to a settled promise run. For \<open>room$\<close>: the
  room is sent on, \<open>room$\<close> completes and \<open>concat\<close> subscribes to \<open>roomUpdate$\<close>, which
  registers the handler of the \<open>updated\<close> event. For a re-fetch inside \<open>flatMap\<close>: the room
  is sent on. A rejection is an error of the whole stream.
\<close>

definition room_settled :: "handle \<Rightarrow> adapter \<Rightarrow> adapter" where
  "room_settled h s =
     (let p = room_promise (streams s ! h)
      in case fetchRoom_result (promises s ! p) of
           Pending \<Rightarrow> s
         | Rejected e \<Rightarrow> fail h e s
         | Fulfilled r \<Rightarrow>
             (let s1 = next_room h p r s;
                  st = streams s1 ! h
              in s1\<lparr>streams := (streams s1)[h := st\<lparr>connection := Some (ListeningForUpdates [])\<rparr>],
                    listeners := listeners s1 @ [h]\<rparr>))"

definition refetch_settled :: "handle \<Rightarrow> promise \<Rightarrow> promise list \<Rightarrow> adapter \<Rightarrow> adapter" where
  "refetch_settled h p ps s =
     (case fetchRoom_result (promises s ! p) of
        Pending \<Rightarrow> s
      | Rejected e \<Rightarrow> fail h e s
      | Fulfilled r \<Rightarrow>
          (let s1 = next_room h p r s;
               st = streams s1 ! h
           in s1\<lparr>streams := (streams s1)[h := st\<lparr>connection := Some (ListeningForUpdates (removeAll p ps))\<rparr>]\<rparr>))"

definition microtask :: "handle \<Rightarrow> promise \<Rightarrow> adapter \<Rightarrow> adapter" where
  "microtask h p s =
     (if h < length (streams s) \<and> p < length (promises s) then
        (case connection (streams s ! h) of
           None \<Rightarrow> s
         | Some AwaitingRoom \<Rightarrow>
             if p = room_promise (streams s ! h) then room_settled h s else s
         | Some (ListeningForUpdates ps) \<Rightarrow>
             if p \<in> set ps then refetch_settled h p ps s else s)
      else s)"

text \<open>
  The predicate of \<open>filter\<close>, \<open>event.data.id === ID\<close>: reading \<open>data\<close> from an absent
  event, or \<open>id\<close> from an absent \<open>data\<close>, throws.
\<close>

definition matches :: "room_id \<Rightarrow> updated_event option \<Rightarrow> error + bool" where
  "matches i ev =
     (case ev of
        None \<Rightarrow> Inl TypeError
      | Some e \<Rightarrow> (case data e of
                     None \<Rightarrow> Inl TypeError
                   | Some d \<Rightarrow> Inr (data_id d = Some i)))"

text \<open>
  The handler that \<open>fromEvent\<close> registered for a stream receives an \<open>updated\<close> event. An
  exception of the predicate is caught by \<open>filter\<close> and sent down the stream as its error;
  a match makes \<open>flatMap\<close> call \<open>fetchRoom\<close>.
\<close>

definition on_updated :: "updated_event option \<Rightarrow> handle \<Rightarrow> adapter \<Rightarrow> adapter" where
  "on_updated ev h s =
     (if h < length (streams s) then
        (case connection (streams s ! h) of
           Some (ListeningForUpdates ps) \<Rightarrow>
             (case matches (room_id (streams s ! h)) ev of
                Inl e \<Rightarrow> fail h e s
              | Inr False \<Rightarrow> s
              | Inr True \<Rightarrow>
                  (let (p, s1) = fetchRoom (room_id (streams s ! h)) s;
                       st = streams s1 ! h
                   in s1\<lparr>streams := (streams s1)[h := st\<lparr>connection := Some (ListeningForUpdates (ps @ [p]))\<rparr>]\<rparr>))
         | _ \<Rightarrow> s)
      else s)"

text \<open>\<open>datasource.rooms\<close> emits \<open>updated\<close>: the registered handlers run in order of registration.\<close>

definition trigger_updated :: "updated_event option \<Rightarrow> adapter \<Rightarrow> adapter" where
  "trigger_updated ev s = fold (on_updated ev) (listeners s) s"

section \<open>Room activities\<close>

text \<open>
  The handler that \<open>getRoomActivities(ID)\<close> registers on mercury. \<open>deconstructHydraId\<close>
  comes from \<open>@webex/common\<close>; it is the parameter \<open>dec\<close>, which gives the \<open>id\<close> field of
  its result. The handler returns the activity it sends to the subject, if any, or the
  exception it throws.
\<close>

definition on_activity :: "(room_id \<Rightarrow> string) \<Rightarrow> room_id \<Rightarrow> sdk_activity option \<Rightarrow> error + activity option" where
  "on_activity dec i ev =
     (case ev of
        None \<Rightarrow> Inl TypeError
      | Some a \<Rightarrow>
          (case target a of
             None \<Rightarrow> Inr None
           | Some t \<Rightarrow>
               if target_id t = Some (dec i) then
                 (case object a of
                    None \<Rightarrow> Inl TypeError
                  | Some b \<Rightarrow>
                      (case actor a of
                         None \<Rightarrow> Inl TypeError
                       | Some c \<Rightarrow>
                           Inr (Some \<lparr>activity_ID = activity_id a,
                                      roomID = target_id t,
                                      content = Some b,
                                      contentType = objectType b,
                                      personID = actor_id c,
                                      displayAuthor = False,
                                      created = published a\<rparr>)))
               else Inr None))"

definition next_activity :: "handle \<Rightarrow> activity \<Rightarrow> adapter \<Rightarrow> adapter" where
  "next_activity h a s =
     (let sj = subjects s ! h
      in s\<lparr>subjects := (subjects s)[h := sj\<lparr>current := Activity a\<rparr>],
           activity_inbox := deliver h (watchers sj) (Activity a) (activity_inbox s)\<rparr>)"

definition getRoomActivities :: "room_id \<Rightarrow> adapter \<Rightarrow> handle \<times> adapter" where
  "getRoomActivities i s =
     (case getRoomActivitiesCache s i of
        Some h \<Rightarrow> (h, s)
      | None \<Rightarrow>
          (let h = length (subjects s);
               s1 = log (MercuryOn i) s
           in (h, s1\<lparr>subjects := subjects s1 @ [\<lparr>current = Placeholder, watchers = []\<rparr>],
                      handlers := handlers s1 @ [(i, h)],
                      getRoomActivitiesCache := (getRoomActivitiesCache s1)(i \<mapsto> h)\<rparr>)))"

text \<open>Subscribing to a behaviour subject sends its current value at once.\<close>

definition watch :: "handle \<Rightarrow> observer \<Rightarrow> adapter \<Rightarrow> adapter" where
  "watch h ob s =
     (if h < length (subjects s) \<and> ob \<notin> set (watchers (subjects s ! h)) then
        (let sj = subjects s ! h
         in s\<lparr>subjects := (subjects s)[h := sj\<lparr>watchers := watchers sj @ [ob]\<rparr>],
              activity_inbox := (activity_inbox s)((h, ob) := activity_inbox s (h, ob) @ [current sj])\<rparr>)
      else s)"

definition unwatch :: "handle \<Rightarrow> observer \<Rightarrow> adapter \<Rightarrow> adapter" where
  "unwatch h ob s =
     (if h < length (subjects s) then
        (let sj = subjects s ! h
         in s\<lparr>subjects := (subjects s)[h := sj\<lparr>watchers := removeAll ob (watchers sj)\<rparr>]\<rparr>)
      else s)"

text \<open>
  Mercury emits \<open>event:conversation.activity\<close>: the registered handlers run in order of
  registration. A handler that throws ends the emission; the exception is recorded in
  \<open>thrown\<close>.
\<close>

fun dispatch :: "(room_id \<Rightarrow> string) \<Rightarrow> sdk_activity option \<Rightarrow> (room_id \<times> handle) list \<Rightarrow> adapter \<Rightarrow> adapter" where
  "dispatch dec ev [] s = s"
| "dispatch dec ev ((i, h) # hs) s =
     (case on_activity dec i ev of
        Inl e \<Rightarrow> s\<lparr>thrown := thrown s @ [e]\<rparr>
      | Inr None \<Rightarrow> dispatch dec ev hs s
      | Inr (Some a) \<Rightarrow> dispatch dec ev hs (next_activity h a s))"

definition trigger_activity :: "(room_id \<Rightarrow> string) \<Rightarrow> sdk_activity option \<Rightarrow> adapter \<Rightarrow> adapter" where
  "trigger_activity dec ev s = dispatch dec ev (handlers s) s"

section \<open>Runs of the adapter\<close>

text \<open>
  What can happen to an adapter: its two public methods are called, observers come and go,
  the data source settles a promise, a callback waiting on a settled promise runs, and the
  data source emits an event.
\<close>

datatype event =
    GetRoom room_id
  | Subscribe handle observer
  | Unsubscribe handle observer
  | Settle promise "sdk_room option promise_state"
  | Microtask handle promise
  | RoomUpdated "updated_event option"
  | GetRoomActivities room_id
  | Watch handle observer
  | Unwatch handle observer
  | ActivityEvent "sdk_activity option"

fun step :: "(room_id \<Rightarrow> string) \<Rightarrow> event \<Rightarrow> adapter \<Rightarrow> adapter" where
  "step dec (GetRoom i) s = snd (getRoom i s)"
| "step dec (Subscribe h ob) s = subscribe h ob s"
| "step dec (Unsubscribe h ob) s = unsubscribe h ob s"
| "step dec (Settle p g) s = settle p g s"
| "step dec (Microtask h p) s = microtask h p s"
| "step dec (RoomUpdated ev) s = trigger_updated ev s"
| "step dec (GetRoomActivities i) s = snd (getRoomActivities i s)"
| "step dec (Watch h ob) s = watch h ob s"
| "step dec (Unwatch h ob) s = unwatch h ob s"
| "step dec (ActivityEvent ev) s = trigger_activity dec ev s"

fun run :: "(room_id \<Rightarrow> string) \<Rightarrow> event list \<Rightarrow> adapter \<Rightarrow> adapter" where
  "run dec [] s = s"
| "run dec (e # es) s = run dec es (step dec e s)"

text \<open>
  The usual way to observe a room: \<open>getRoom(ID).subscribe(observer)\<close>.
\<close>

definition observe :: "room_id \<Rightarrow> observer \<Rightarrow> adapter \<Rightarrow> adapter" where
  "observe i ob s = (let (h, s1) = getRoom i s in subscribe h ob s1)"

section \<open>Predicates used in the statements\<close>

text \<open>
  The gate is in order when its log never shows \<open>rooms.listen\<close> twice in a row and the
  counter is positive whenever the channel is on.
\<close>

definition gate_inv :: "adapter \<Rightarrow> bool" where
  "gate_inv s =
     (alternating False (calls s) \<and> (channel False (calls s) \<longrightarrow> 1 \<le> listenerCount s))"

text \<open>
  A cache entry of \<open>getRoomObservables\<close> is in order when it names a stream that exists,
  that was built for that room, and that has not stopped with an error.
\<close>

definition cache_ok :: "adapter \<Rightarrow> bool" where
  "cache_ok s =
     (\<forall>i h. getRoomObservables s i = Some h \<longrightarrow>
        h < length (streams s) \<and> room_id (streams s ! h) = i \<and> thrownError (streams s ! h) = None)"

text \<open>A stream listens when its connection has gone past \<open>room$\<close>.\<close>

definition listening :: "stream \<Rightarrow> bool" where
  "listening st = (case connection st of Some (ListeningForUpdates ps) \<Rightarrow> True | _ \<Rightarrow> False)"

text \<open>
  A stream is in order when it is connected exactly while it has observers, has no
  observers once it has stopped with an error, has a buffered snapshot once it listens to
  updates, and every observer's last notification is the buffered snapshot.
\<close>

definition stream_ok :: "(handle \<times> observer \<Rightarrow> notification list) \<Rightarrow> handle \<Rightarrow> stream \<Rightarrow> bool" where
  "stream_ok box h st =
     ((observers st = [] \<longleftrightarrow> connection st = None) \<and>
      (thrownError st \<noteq> None \<longrightarrow> observers st = []) \<and>
      (listening st \<longrightarrow> buffer st \<noteq> None) \<and>
      (\<forall>ob p r. ob \<in> set (observers st) \<longrightarrow> buffer st = Some (p, r) \<longrightarrow>
         box (h, ob) \<noteq> [] \<and> last (box (h, ob)) = Next p r))"

definition streams_ok :: "adapter \<Rightarrow> bool" where
  "streams_ok s = (\<forall>h < length (streams s). stream_ok (inbox s) h (streams s ! h))"

text \<open>
  The activity side is in order when cached subjects exist, and every registered handler
  feeds a subject that exists and that the cache gives to the handler's own room only.
\<close>

definition activity_ok :: "adapter \<Rightarrow> bool" where
  "activity_ok s =
     ((\<forall>j h. getRoomActivitiesCache s j = Some h \<longrightarrow> h < length (subjects s)) \<and>
      (\<forall>i h. (i, h) \<in> set (handlers s) \<longrightarrow>
         h < length (subjects s) \<and> (\<forall>j. getRoomActivitiesCache s j = Some h \<longrightarrow> j = i)))"

text \<open>Two states with the same activity side, and two states with the same room side.\<close>

definition same_activities :: "adapter \<Rightarrow> adapter \<Rightarrow> bool" where
  "same_activities s t =
     (getRoomActivitiesCache t = getRoomActivitiesCache s \<and> handlers t = handlers s \<and>
      subjects t = subjects s \<and> activity_inbox t = activity_inbox s \<and> thrown t = thrown s)"

definition same_rooms :: "adapter \<Rightarrow> adapter \<Rightarrow> bool" where
  "same_rooms s t =
     (streams t = streams s \<and> inbox t = inbox s \<and> getRoomObservables t = getRoomObservables s \<and>
      listeners t = listeners s \<and> promises t = promises s \<and> listenerCount t = listenerCount s)"

definition wf :: "adapter \<Rightarrow> bool" where
  "wf s = (cache_ok s \<and> streams_ok s \<and> activity_ok s)"


text \<open>
  \<open>initial_first p0 ns\<close>: in the notifications \<open>ns\<close> of one subscription to a stream whose
  first fetch is the promise \<open>p0\<close>, no snapshot derived from an update event comes before
  the initial snapshot: the first notification, if there is one, is the snapshot read from
  \<open>p0\<close> or the error that ends the subscription.
\<close>

fun initial_first :: "promise \<Rightarrow> notification list \<Rightarrow> bool" where
  "initial_first p0 [] = True"
| "initial_first p0 (Next p r # ns) = (p = p0)"
| "initial_first p0 (Error e # ns) = True"

text \<open>
  An observer of a stream is waiting when it has received nothing since \<open>base\<close> and the
  stream has produced no snapshot yet; it is served when it has received, as its first
  notification since \<open>base\<close>, the initial snapshot or an error.
\<close>

definition waiting :: "handle \<Rightarrow> observer \<Rightarrow> promise \<Rightarrow> notification list \<Rightarrow> adapter \<Rightarrow> bool" where
  "waiting h ob p0 base t =
     (h < length (streams t) \<and> room_promise (streams t ! h) = p0 \<and> inbox t (h, ob) = base \<and>
      buffer (streams t ! h) = None \<and> \<not> listening (streams t ! h) \<and>
      ob \<in> set (observers (streams t ! h)))"

definition served :: "handle \<Rightarrow> observer \<Rightarrow> promise \<Rightarrow> notification list \<Rightarrow> adapter \<Rightarrow> bool" where
  "served h ob p0 base t = (\<exists>n ns. inbox t (h, ob) = base @ n # ns \<and> initial_first p0 [n])"

text \<open>
  The replay buffer of a stream holds no snapshot derived from an update event: it is
  empty, or it holds the snapshot read from the stream's first fetch.
\<close>

definition no_update_buffered :: "stream \<Rightarrow> bool" where
  "no_update_buffered st = (case buffer st of None \<Rightarrow> True | Some (p, r) \<Rightarrow> p = room_promise st)"

text \<open>
  \<open>torn_down s h e u\<close>: from state \<open>s\<close> to state \<open>u\<close> the stream \<open>h\<close> has ended with the
  error \<open>e\<close> and its teardown has run once: it has no observers left,
  \<open>stopListeningToRoomUpdates\<close> has been called exactly once and nothing else, the cache
  entry of its room is gone, and the next \<open>getRoom\<close> for the room builds a new stream,
  calling \<open>startListeningToRoomUpdates\<close> and \<open>rooms.get\<close> afresh.
\<close>

definition torn_down :: "adapter \<Rightarrow> handle \<Rightarrow> error \<Rightarrow> adapter \<Rightarrow> bool" where
  "torn_down s h e u =
     (observers (streams u ! h) = [] \<and>
      thrownError (streams u ! h) = Some e \<and>
      connection (streams u ! h) = None \<and>
      calls u = calls s @ StopListeningToRoomUpdates #
                  (if listenerCount s \<le> 1 then [RoomsStopListening] else []) \<and>
      listenerCount u = listenerCount s - 1 \<and>
      getRoomObservables u (room_id (streams s ! h)) = None \<and>
      fst (getRoom (room_id (streams s ! h)) u) = length (streams s) \<and>
      calls (snd (getRoom (room_id (streams s ! h)) u)) =
        calls u @ StartListeningToRoomUpdates #
          (if listenerCount u = 0 then [RoomsListen] else []) @
          [RoomsGet (room_id (streams s ! h))])"


text \<open>
  A cached stream that has produced a snapshot listens for updates, and every stream that
  listens has its handler registered.
\<close>

definition live_ok :: "adapter \<Rightarrow> bool" where
  "live_ok s =
     ((\<forall>i h. getRoomObservables s i = Some h \<longrightarrow> buffer (streams s ! h) \<noteq> None \<longrightarrow>
          listening (streams s ! h)) \<and>
      (\<forall>h < length (streams s). listening (streams s ! h) \<longrightarrow> h \<in> set (listeners s)))"

text \<open>
  An event touches the subscription of observer \<open>ob\<close> to stream \<open>h\<close> when it is that
  observer subscribing to or unsubscribing from that stream.
\<close>

fun touches :: "handle \<Rightarrow> observer \<Rightarrow> event \<Rightarrow> bool" where
  "touches h ob (Subscribe h' ob') = (h' = h \<and> ob' = ob)"
| "touches h ob (Unsubscribe h' ob') = (h' = h \<and> ob' = ob)"
| "touches h ob e = False"

text \<open>
  Two observers of a stream are in lockstep since \<open>b\<close> and \<open>b'\<close> when both are subscribed or
  neither is, and they have received the same notifications since.
\<close>

definition lockstep ::
  "handle \<Rightarrow> observer \<Rightarrow> observer \<Rightarrow> notification list \<Rightarrow> notification list \<Rightarrow> adapter \<Rightarrow> bool" where
  "lockstep h ob ob' b b' t =
     (h < length (streams t) \<and>
      (ob \<in> set (observers (streams t ! h)) \<longleftrightarrow> ob' \<in> set (observers (streams t ! h))) \<and>
      (\<exists>ns. inbox t (h, ob) = b @ ns \<and> inbox t (h, ob') = b' @ ns))"

section \<open>Properties of the gate\<close>

lemma listenerCount_log [simp]: "listenerCount (log c s) = listenerCount s"
  by (simp add: log_def)

lemma calls_log [simp]: "calls (log c s) = calls s @ [c]"
  by (simp add: log_def)

lemma listenerCount_start: "listenerCount (startListeningToRoomUpdates s) = listenerCount s + 1"
  by (simp add: startListeningToRoomUpdates_def Let_def)

lemma listenerCount_stop: "listenerCount (stopListeningToRoomUpdates s) = listenerCount s - 1"
  by (simp add: stopListeningToRoomUpdates_def Let_def)

lemma calls_start:
  "calls (startListeningToRoomUpdates s) =
     calls s @ StartListeningToRoomUpdates # (if listenerCount s = 0 then [RoomsListen] else [])"
  by (simp add: startListeningToRoomUpdates_def Let_def)

lemma calls_stop:
  "calls (stopListeningToRoomUpdates s) =
     calls s @ StopListeningToRoomUpdates # (if listenerCount s \<le> 1 then [RoomsStopListening] else [])"
  by (simp add: stopListeningToRoomUpdates_def Let_def)

lemma listenerCount_gate_run:
  "listenerCount (gate_run gs s) =
     listenerCount s + int (count_list gs Acquire) - int (count_list gs Release)"
proof (induction gs arbitrary: s)
  case Nil
  show ?case by simp
next
  case (Cons g gs)
  show ?case
    by (cases g) (simp_all add: Cons.IH listenerCount_start listenerCount_stop)
qed

lemma paired_nonneg:
  "paired n gs \<Longrightarrow> listenerCount s = int n \<Longrightarrow> 0 \<le> listenerCount (gate_run (take k gs) s)"
proof (induction gs arbitrary: n s k)
  case Nil
  then show ?case by simp
next
  case (Cons g gs)
  show ?case
  proof (cases k)
    case 0
    with Cons.prems show ?thesis by simp
  next
    case (Suc j)
    show ?thesis
    proof (cases g)
      case Acquire
      with Cons.prems have "paired (Suc n) gs" by simp
      moreover have "listenerCount (startListeningToRoomUpdates s) = int (Suc n)"
        using Cons.prems by (simp add: listenerCount_start)
      ultimately have "0 \<le> listenerCount (gate_run (take j gs) (startListeningToRoomUpdates s))"
        by (rule Cons.IH)
      with Suc Acquire show ?thesis by simp
    next
      case Release
      with Cons.prems have n: "0 < n" and p: "paired (n - 1) gs" by simp_all
      have "listenerCount (stopListeningToRoomUpdates s) = int (n - 1)"
        using Cons.prems n by (simp add: listenerCount_stop of_nat_diff)
      with p have "0 \<le> listenerCount (gate_run (take j gs) (stopListeningToRoomUpdates s))"
        by (rule Cons.IH)
      with Suc Release show ?thesis by simp
    qed
  qed
qed

lemma alternating_append:
  "alternating l (cs @ ds) = (alternating l cs \<and> alternating (channel l cs) ds)"
  by (induction l cs rule: alternating.induct) simp_all

lemma channel_append: "channel l (cs @ ds) = channel (channel l cs) ds"
  by (induction l cs rule: channel.induct) simp_all

lemma gate_inv_start: "gate_inv s \<Longrightarrow> gate_inv (startListeningToRoomUpdates s)"
  by (auto simp: gate_inv_def calls_start listenerCount_start alternating_append channel_append)

lemma gate_inv_stop: "gate_inv s \<Longrightarrow> gate_inv (stopListeningToRoomUpdates s)"
  by (auto simp: gate_inv_def calls_stop listenerCount_stop alternating_append channel_append)

lemma gate_inv_init: "gate_inv init"
  by (simp add: gate_inv_def init_def)

lemma gate_inv_gate_run: "gate_inv s \<Longrightarrow> gate_inv (gate_run gs s)"
proof (induction gs arbitrary: s)
  case Nil
  then show ?case by simp
next
  case (Cons g gs)
  then show ?case
    by (cases g) (simp_all add: gate_inv_start gate_inv_stop)
qed

text \<open>
  Claim C4, as stated: after every sequence of calls of the two gate methods on a new
  adapter, \<open>listenerCount\<close> is not negative. It does not hold:
  \<open>stopListeningToRoomUpdates\<close> subtracts one whatever the counter is, so one release on a
  new adapter leaves the counter at minus one.
\<close>

theorem gate_counter_negative: "listenerCount (gate_run [Release] init) = - 1"
  by (simp add: stopListeningToRoomUpdates_def init_def log_def Let_def)

text \<open>
  Claim C4, amended: the counter starts at 0, every acquire adds one and every release
  subtracts one, with no clamping, so it is the number of acquires minus the number of
  releases; when no release comes without an acquire still outstanding, it is not
  negative after any prefix of the sequence.
\<close>

theorem gate_counter_nonneg_when_paired:
  "paired 0 gs \<Longrightarrow>
     0 \<le> listenerCount (gate_run (take k gs) init) \<and>
     listenerCount (gate_run gs init) = int (count_list gs Acquire) - int (count_list gs Release)"
  using paired_nonneg [of 0 gs init k] listenerCount_gate_run [of gs init]
  by (simp add: init_def)

theorem gate_counter_nonneg_when_paired_witness:
  "paired 0 [Acquire, Acquire, Release, Release] \<and>
   0 \<le> listenerCount (gate_run (take 3 [Acquire, Acquire, Release, Release]) init) \<and>
   listenerCount (gate_run [Acquire, Acquire, Release, Release] init) = 0"
  using gate_counter_nonneg_when_paired [of "[Acquire, Acquire, Release, Release]" 3]
  by simp

section \<open>The operations as updates of the state\<close>

lemma log_eq: "log c s = s\<lparr>calls := calls s @ [c]\<rparr>"
  by (simp add: log_def)

lemma start_eq:
  "startListeningToRoomUpdates s =
     s\<lparr>calls := calls s @ StartListeningToRoomUpdates # (if listenerCount s = 0 then [RoomsListen] else []),
       listenerCount := listenerCount s + 1\<rparr>"
  by (simp add: startListeningToRoomUpdates_def Let_def log_def)

lemma stop_eq:
  "stopListeningToRoomUpdates s =
     s\<lparr>calls := calls s @ StopListeningToRoomUpdates # (if listenerCount s \<le> 1 then [RoomsStopListening] else []),
       listenerCount := listenerCount s - 1\<rparr>"
  by (simp add: stopListeningToRoomUpdates_def Let_def log_def)

lemma finalize_eq:
  "finalize h s =
     s\<lparr>calls := calls s @ StopListeningToRoomUpdates # (if listenerCount s \<le> 1 then [RoomsStopListening] else []),
       listenerCount := listenerCount s - 1,
       getRoomObservables := (getRoomObservables s)(room_id (streams s ! h) := None)\<rparr>"
  by (simp add: finalize_def Let_def stop_eq)

lemma disconnect_eq:
  "disconnect h s =
     s\<lparr>calls := calls s @ StopListeningToRoomUpdates # (if listenerCount s \<le> 1 then [RoomsStopListening] else []),
       listenerCount := listenerCount s - 1,
       getRoomObservables := (getRoomObservables s)(room_id (streams s ! h) := None),
       streams := (streams s)[h := (streams s ! h)\<lparr>connection := None\<rparr>],
       listeners := removeAll h (listeners s)\<rparr>"
  by (simp add: disconnect_def Let_def finalize_eq)

lemma fail_eq:
  "h < length (streams s) \<Longrightarrow>
   fail h e s =
     s\<lparr>calls := calls s @ StopListeningToRoomUpdates # (if listenerCount s \<le> 1 then [RoomsStopListening] else []),
       listenerCount := listenerCount s - 1,
       getRoomObservables := (getRoomObservables s)(room_id (streams s ! h) := None),
       streams := (streams s)[h := (streams s ! h)\<lparr>connection := None, observers := [], thrownError := Some e\<rparr>],
       listeners := removeAll h (listeners s),
       inbox := deliver h (observers (streams s ! h)) (Error e) (inbox s)\<rparr>"
  by (simp add: fail_def Let_def disconnect_eq)

lemma getRoom_miss:
  "getRoomObservables s i = None \<Longrightarrow>
   getRoom i s =
     (length (streams s),
      s\<lparr>calls := calls s @ StartListeningToRoomUpdates # (if listenerCount s = 0 then [RoomsListen] else []) @ [RoomsGet i],
        listenerCount := listenerCount s + 1,
        promises := promises s @ [Pending],
        streams := streams s @ [new_stream i (length (promises s))],
        getRoomObservables := (getRoomObservables s)(i \<mapsto> length (streams s))\<rparr>)"
  by (simp add: getRoom_def Let_def start_eq fetchRoom_def log_def)

lemma getRoom_hit: "getRoomObservables s i = Some h \<Longrightarrow> getRoom i s = (h, s)"
  by (simp add: getRoom_def)

lemma next_room_eq:
  "next_room h p r s =
     s\<lparr>streams := (streams s)[h := (streams s ! h)\<lparr>buffer := Some (p, r)\<rparr>],
       inbox := deliver h (observers (streams s ! h)) (Next p r) (inbox s)\<rparr>"
  by (simp add: next_room_def Let_def)

lemma room_settled_fulfilled:
  "h < length (streams s) \<Longrightarrow>
   fetchRoom_result (promises s ! room_promise (streams s ! h)) = Fulfilled r \<Longrightarrow>
   room_settled h s =
     s\<lparr>streams := (streams s)[h := (streams s ! h)\<lparr>buffer := Some (room_promise (streams s ! h), r),
                                  connection := Some (ListeningForUpdates [])\<rparr>],
       inbox := deliver h (observers (streams s ! h)) (Next (room_promise (streams s ! h)) r) (inbox s),
       listeners := listeners s @ [h]\<rparr>"
  by (simp add: room_settled_def Let_def next_room_eq)

lemma room_settled_rejected:
  "fetchRoom_result (promises s ! room_promise (streams s ! h)) = Rejected e \<Longrightarrow>
   room_settled h s = fail h e s"
  by (simp add: room_settled_def Let_def)

lemma room_settled_pending:
  "fetchRoom_result (promises s ! room_promise (streams s ! h)) = Pending \<Longrightarrow>
   room_settled h s = s"
  by (simp add: room_settled_def Let_def)

lemma refetch_settled_fulfilled:
  "h < length (streams s) \<Longrightarrow>
   fetchRoom_result (promises s ! p) = Fulfilled r \<Longrightarrow>
   refetch_settled h p ps s =
     s\<lparr>streams := (streams s)[h := (streams s ! h)\<lparr>buffer := Some (p, r),
                                  connection := Some (ListeningForUpdates (removeAll p ps))\<rparr>],
       inbox := deliver h (observers (streams s ! h)) (Next p r) (inbox s)\<rparr>"
  by (simp add: refetch_settled_def Let_def next_room_eq)

lemma refetch_settled_rejected:
  "fetchRoom_result (promises s ! p) = Rejected e \<Longrightarrow> refetch_settled h p ps s = fail h e s"
  by (simp add: refetch_settled_def)

lemma refetch_settled_pending:
  "fetchRoom_result (promises s ! p) = Pending \<Longrightarrow> refetch_settled h p ps s = s"
  by (simp add: refetch_settled_def)

lemma deliver_other [simp]: "h' \<noteq> h \<Longrightarrow> deliver h obs n box (h', ob) = box (h', ob)"
  by (simp add: deliver_def)

lemma deliver_same: "deliver h obs n box (h, ob) = (if ob \<in> set obs then box (h, ob) @ [n] else box (h, ob))"
  by (simp add: deliver_def)


section \<open>Invariants of every run\<close>

lemma streams_okI: "(\<And>h. h < length (streams s) \<Longrightarrow> stream_ok (inbox s) h (streams s ! h)) \<Longrightarrow> streams_ok s"
  by (simp add: streams_ok_def)

lemma streams_okD: "streams_ok s \<Longrightarrow> h < length (streams s) \<Longrightarrow> stream_ok (inbox s) h (streams s ! h)"
  by (simp add: streams_ok_def)

lemma stream_ok_new [simp]: "stream_ok box h (new_stream i p)"
  by (simp add: stream_ok_def new_stream_def listening_def)

lemma streams_ok_subscribe: "streams_ok s \<Longrightarrow> streams_ok (subscribe h ob s)"
  apply (rule streams_okI)
  apply (frule_tac h=ha in streams_okD)
   apply (simp add: subscribe_def Let_def split: if_splits option.splits)
  apply (auto simp: subscribe_def Let_def stream_ok_def listening_def replay_def nth_list_update split: if_splits option.splits phase.splits)
  done

lemma streams_ok_unsubscribe: "streams_ok s \<Longrightarrow> streams_ok (unsubscribe h ob s)"
  apply (rule streams_okI)
  apply (frule_tac h=ha in streams_okD)
   apply (simp add: unsubscribe_def Let_def disconnect_eq split: if_splits option.splits)
  apply (auto simp: unsubscribe_def Let_def disconnect_eq stream_ok_def listening_def nth_list_update split: if_splits option.splits phase.splits)
  done

lemma streams_ok_getRoom: "streams_ok s \<Longrightarrow> streams_ok (snd (getRoom i s))"
  apply (cases "getRoomObservables s i")
   apply (simp add: getRoom_miss streams_ok_def nth_append)
  apply (simp add: getRoom_hit)
  done

lemma streams_ok_settle: "streams_ok s \<Longrightarrow> streams_ok (settle p g s)"
  by (simp add: settle_def streams_ok_def)

lemma streams_ok_fail: "streams_ok s \<Longrightarrow> h < length (streams s) \<Longrightarrow> streams_ok (fail h e s)"
  apply (rule streams_okI)
  apply (frule_tac h=ha in streams_okD)
   apply (simp add: fail_eq)
  apply (auto simp: fail_eq stream_ok_def listening_def nth_list_update deliver_def split: if_splits)
  done

lemma streams_ok_microtask: "streams_ok s \<Longrightarrow> streams_ok (microtask h p s)"
proof (cases "h < length (streams s) \<and> p < length (promises s)")
  case False
  assume "streams_ok s"
  with False show ?thesis by (auto simp: microtask_def)
next
  case True
  assume ok: "streams_ok s"
  from True have h: "h < length (streams s)" by simp
  show ?thesis
  proof (cases "connection (streams s ! h)")
    case None
    with ok True show ?thesis by (simp add: microtask_def)
  next
    case (Some c)
    show ?thesis
    proof (cases c)
      case AwaitingRoom
      show ?thesis
      proof (cases "p = room_promise (streams s ! h)")
        case False
        with ok True Some AwaitingRoom show ?thesis by (simp add: microtask_def)
      next
        case pr: True
        show ?thesis
        proof (cases "fetchRoom_result (promises s ! room_promise (streams s ! h))")
          case Pending
          with ok True Some AwaitingRoom pr show ?thesis
            by (simp add: microtask_def room_settled_pending)
        next
          case (Rejected e)
          with ok True Some AwaitingRoom pr show ?thesis
            by (simp add: microtask_def room_settled_rejected streams_ok_fail)
        next
          case (Fulfilled r)
          have "streams_ok (room_settled h s)"
            apply (rule streams_okI)
            apply (insert ok h Fulfilled Some AwaitingRoom)
            apply (frule_tac h=ha in streams_okD)
             apply (simp add: room_settled_fulfilled)
            apply (auto simp: room_settled_fulfilled stream_ok_def listening_def nth_list_update deliver_def split: if_splits)
            done
          with True Some AwaitingRoom pr show ?thesis
            by (simp add: microtask_def)
        qed
      qed
    next
      case (ListeningForUpdates ps)
      show ?thesis
      proof (cases "p \<in> set ps")
        case False
        with ok True Some ListeningForUpdates show ?thesis by (simp add: microtask_def)
      next
        case pr: True
        show ?thesis
        proof (cases "fetchRoom_result (promises s ! p)")
          case Pending
          with ok True Some ListeningForUpdates pr show ?thesis
            by (simp add: microtask_def refetch_settled_pending)
        next
          case (Rejected e)
          with ok True Some ListeningForUpdates pr show ?thesis
            by (simp add: microtask_def refetch_settled_rejected streams_ok_fail)
        next
          case (Fulfilled r)
          have "streams_ok (refetch_settled h p ps s)"
            apply (rule streams_okI)
            apply (insert ok h Fulfilled Some ListeningForUpdates)
            apply (frule_tac h=ha in streams_okD)
             apply (simp add: refetch_settled_fulfilled)
            apply (auto simp: refetch_settled_fulfilled stream_ok_def listening_def nth_list_update deliver_def split: if_splits)
            done
          with True Some ListeningForUpdates pr show ?thesis
            by (simp add: microtask_def)
        qed
      qed
    qed
  qed
qed

lemma on_updated_cases:
  "on_updated ev h s = s \<or>
   (h < length (streams s) \<and> (\<exists>e. on_updated ev h s = fail h e s)) \<or>
   (h < length (streams s) \<and> (\<exists>ps. connection (streams s ! h) = Some (ListeningForUpdates ps) \<and>
      on_updated ev h s =
        s\<lparr>calls := calls s @ [RoomsGet (room_id (streams s ! h))],
          promises := promises s @ [Pending],
          streams := (streams s)[h := (streams s ! h)\<lparr>connection := Some (ListeningForUpdates (ps @ [length (promises s)]))\<rparr>]\<rparr>))"
  by (auto simp: on_updated_def fetchRoom_def log_def Let_def split: option.splits phase.splits sum.splits bool.splits)

lemma streams_ok_on_updated: "streams_ok s \<Longrightarrow> streams_ok (on_updated ev h s)"
  using on_updated_cases [of ev h s]
  apply (elim disjE conjE exE)
    apply simp
   apply (simp add: streams_ok_fail)
  apply (rule streams_okI)
  apply (frule_tac h=ha in streams_okD)
   apply simp
  apply (auto simp: stream_ok_def listening_def nth_list_update split: if_splits)
  done

lemma fold_inv: "P s \<Longrightarrow> (\<And>x t. P t \<Longrightarrow> P (f x t)) \<Longrightarrow> P (fold f xs s)"
  by (induction xs arbitrary: s) simp_all

lemma streams_ok_trigger_updated: "streams_ok s \<Longrightarrow> streams_ok (trigger_updated ev s)"
  unfolding trigger_updated_def by (rule fold_inv) (simp_all add: streams_ok_on_updated)


lemma cache_ok_subscribe: "cache_ok s \<Longrightarrow> cache_ok (subscribe h ob s)"
  by (auto simp: cache_ok_def subscribe_def Let_def nth_list_update split: option.splits)

lemma cache_ok_unsubscribe: "cache_ok s \<Longrightarrow> cache_ok (unsubscribe h ob s)"
  by (auto simp: cache_ok_def unsubscribe_def Let_def disconnect_eq nth_list_update split: if_splits)

lemma cache_ok_getRoom: "cache_ok s \<Longrightarrow> cache_ok (snd (getRoom i s))"
  apply (cases "getRoomObservables s i")
   apply (auto simp: getRoom_miss getRoom_hit cache_ok_def nth_append new_stream_def less_Suc_eq)
  done

lemma cache_ok_settle: "cache_ok s \<Longrightarrow> cache_ok (settle p g s)"
  by (simp add: settle_def cache_ok_def)

lemma cache_ok_fail: "cache_ok s \<Longrightarrow> h < length (streams s) \<Longrightarrow> cache_ok (fail h e s)"
  by (auto simp: cache_ok_def fail_eq nth_list_update)

lemma microtask_cases:
  "microtask h p s = s \<or>
   (h < length (streams s) \<and> (\<exists>e. microtask h p s = fail h e s)) \<or>
   (h < length (streams s) \<and> connection (streams s ! h) = Some AwaitingRoom \<and> p = room_promise (streams s ! h) \<and>
      (\<exists>r. fetchRoom_result (promises s ! p) = Fulfilled r \<and>
        microtask h p s =
         s\<lparr>streams := (streams s)[h := (streams s ! h)\<lparr>buffer := Some (p, r),
                                  connection := Some (ListeningForUpdates [])\<rparr>],
           inbox := deliver h (observers (streams s ! h)) (Next p r) (inbox s),
           listeners := listeners s @ [h]\<rparr>)) \<or>
   (h < length (streams s) \<and> (\<exists>ps r. connection (streams s ! h) = Some (ListeningForUpdates ps) \<and> p \<in> set ps \<and>
        fetchRoom_result (promises s ! p) = Fulfilled r \<and>
        microtask h p s =
         s\<lparr>streams := (streams s)[h := (streams s ! h)\<lparr>buffer := Some (p, r),
                                  connection := Some (ListeningForUpdates (removeAll p ps))\<rparr>],
           inbox := deliver h (observers (streams s ! h)) (Next p r) (inbox s)\<rparr>))"
proof (cases "h < length (streams s) \<and> p < length (promises s)")
  case False
  then show ?thesis by (auto simp: microtask_def)
next
  case True
  then have h: "h < length (streams s)" by simp
  show ?thesis
  proof (cases "connection (streams s ! h)")
    case None
    with True show ?thesis by (simp add: microtask_def)
  next
    case (Some c)
    show ?thesis
    proof (cases c)
      case AwaitingRoom
      show ?thesis
      proof (cases "p = room_promise (streams s ! h)")
        case False
        with True Some AwaitingRoom show ?thesis by (simp add: microtask_def)
      next
        case pr: True
        show ?thesis
        proof (cases "fetchRoom_result (promises s ! room_promise (streams s ! h))")
          case Pending
          with True Some AwaitingRoom pr show ?thesis
            by (simp add: microtask_def room_settled_pending)
        next
          case (Rejected e)
          with True Some AwaitingRoom pr have "microtask h p s = fail h e s"
            by (simp add: microtask_def room_settled_rejected)
          with h show ?thesis by blast
        next
          case (Fulfilled r)
          with True Some AwaitingRoom pr have "microtask h p s =
         s\<lparr>streams := (streams s)[h := (streams s ! h)\<lparr>buffer := Some (p, r),
                                  connection := Some (ListeningForUpdates [])\<rparr>],
           inbox := deliver h (observers (streams s ! h)) (Next p r) (inbox s),
           listeners := listeners s @ [h]\<rparr>"
            by (simp add: microtask_def room_settled_fulfilled)
          with h Some AwaitingRoom pr Fulfilled show ?thesis by blast
        qed
      qed
    next
      case (ListeningForUpdates ps)
      show ?thesis
      proof (cases "p \<in> set ps")
        case False
        with True Some ListeningForUpdates show ?thesis by (simp add: microtask_def)
      next
        case pr: True
        show ?thesis
        proof (cases "fetchRoom_result (promises s ! p)")
          case Pending
          with True Some ListeningForUpdates pr show ?thesis
            by (simp add: microtask_def refetch_settled_pending)
        next
          case (Rejected e)
          with True Some ListeningForUpdates pr have "microtask h p s = fail h e s"
            by (simp add: microtask_def refetch_settled_rejected)
          with h show ?thesis by blast
        next
          case (Fulfilled r)
          with True Some ListeningForUpdates pr have "microtask h p s =
         s\<lparr>streams := (streams s)[h := (streams s ! h)\<lparr>buffer := Some (p, r),
                                  connection := Some (ListeningForUpdates (removeAll p ps))\<rparr>],
           inbox := deliver h (observers (streams s ! h)) (Next p r) (inbox s)\<rparr>"
            by (simp add: microtask_def refetch_settled_fulfilled)
          with h Some ListeningForUpdates pr Fulfilled show ?thesis by blast
        qed
      qed
    qed
  qed
qed

lemma cache_ok_microtask: "cache_ok s \<Longrightarrow> cache_ok (microtask h p s)"
  using microtask_cases [of h p s]
  apply (elim disjE conjE exE)
     apply simp
    apply (simp add: cache_ok_fail)
   apply (auto simp: cache_ok_def nth_list_update)
  done

lemma cache_ok_on_updated: "cache_ok s \<Longrightarrow> cache_ok (on_updated ev h s)"
  using on_updated_cases [of ev h s]
  apply (elim disjE conjE exE)
    apply simp
   apply (simp add: cache_ok_fail)
  apply (auto simp: cache_ok_def nth_list_update)
  done

lemma cache_ok_trigger_updated: "cache_ok s \<Longrightarrow> cache_ok (trigger_updated ev s)"
  unfolding trigger_updated_def by (rule fold_inv) (simp_all add: cache_ok_on_updated)

lemma next_activity_eq:
  "next_activity h a s =
     s\<lparr>subjects := (subjects s)[h := (subjects s ! h)\<lparr>current := Activity a\<rparr>],
       activity_inbox := deliver h (watchers (subjects s ! h)) (Activity a) (activity_inbox s)\<rparr>"
  by (simp add: next_activity_def Let_def)

lemma getRoomActivities_miss:
  "getRoomActivitiesCache s i = None \<Longrightarrow>
   getRoomActivities i s =
     (length (subjects s),
      s\<lparr>calls := calls s @ [MercuryOn i],
        subjects := subjects s @ [\<lparr>current = Placeholder, watchers = []\<rparr>],
        handlers := handlers s @ [(i, length (subjects s))],
        getRoomActivitiesCache := (getRoomActivitiesCache s)(i \<mapsto> length (subjects s))\<rparr>)"
  by (simp add: getRoomActivities_def Let_def log_def)

lemma getRoomActivities_hit:
  "getRoomActivitiesCache s i = Some h \<Longrightarrow> getRoomActivities i s = (h, s)"
  by (simp add: getRoomActivities_def)

lemma activity_ok_getRoomActivities: "activity_ok s \<Longrightarrow> activity_ok (snd (getRoomActivities i s))"
proof (cases "getRoomActivitiesCache s i")
  case (Some h)
  assume "activity_ok s"
  with Some show ?thesis by (simp add: getRoomActivities_hit)
next
  case None
  assume ok: "activity_ok s"
  from ok have a: "\<And>j h. getRoomActivitiesCache s j = Some h \<Longrightarrow> h < length (subjects s)"
    and b: "\<And>i h j. (i, h) \<in> set (handlers s) \<Longrightarrow> getRoomActivitiesCache s j = Some h \<Longrightarrow> j = i"
    and c: "\<And>i h. (i, h) \<in> set (handlers s) \<Longrightarrow> h < length (subjects s)"
    by (auto simp: activity_ok_def)
  show ?thesis
    unfolding activity_ok_def
  proof (intro conjI allI impI)
    fix j h
    assume "getRoomActivitiesCache (snd (getRoomActivities i s)) j = Some h"
    then show "h < length (subjects (snd (getRoomActivities i s)))"
      using None a [of j h] by (auto simp: getRoomActivities_miss split: if_splits)
  next
    fix i' h
    assume "(i', h) \<in> set (handlers (snd (getRoomActivities i s)))"
    then show "h < length (subjects (snd (getRoomActivities i s)))"
      using None c [of i' h] by (auto simp: getRoomActivities_miss)
  next
    fix i' h j
    assume h: "(i', h) \<in> set (handlers (snd (getRoomActivities i s)))"
      and d: "getRoomActivitiesCache (snd (getRoomActivities i s)) j = Some h"
    from h have "(i', h) \<in> set (handlers s) \<or> (i' = i \<and> h = length (subjects s))"
      using None by (auto simp: getRoomActivities_miss)
    then show "j = i'"
    proof
      assume old: "(i', h) \<in> set (handlers s)"
      show ?thesis
      proof (cases "j = i")
        case True
        with d None have "h = length (subjects s)" by (simp add: getRoomActivities_miss)
        with c [OF old] show ?thesis by simp
      next
        case False
        with d None have "getRoomActivitiesCache s j = Some h" by (simp add: getRoomActivities_miss)
        with old show ?thesis by (rule b)
      qed
    next
      assume new: "i' = i \<and> h = length (subjects s)"
      show ?thesis
      proof (cases "j = i")
        case True
        with new show ?thesis by simp
      next
        case False
        with d None have "getRoomActivitiesCache s j = Some h" by (simp add: getRoomActivities_miss)
        from a [OF this] new show ?thesis by simp
      qed
    qed
  qed
qed

lemma activity_ok_watch: "activity_ok s \<Longrightarrow> activity_ok (watch h ob s)"
  by (simp add: activity_ok_def watch_def Let_def)

lemma activity_ok_unwatch: "activity_ok s \<Longrightarrow> activity_ok (unwatch h ob s)"
  by (simp add: activity_ok_def unwatch_def Let_def)

lemma dispatch_cache [simp]: "getRoomActivitiesCache (dispatch dec ev hs s) = getRoomActivitiesCache s"
  by (induction dec ev hs s rule: dispatch.induct)
     (simp_all add: next_activity_eq split: sum.splits option.splits)

lemma dispatch_handlers [simp]: "handlers (dispatch dec ev hs s) = handlers s"
  by (induction dec ev hs s rule: dispatch.induct)
     (simp_all add: next_activity_eq split: sum.splits option.splits)

lemma dispatch_length_subjects [simp]: "length (subjects (dispatch dec ev hs s)) = length (subjects s)"
  by (induction dec ev hs s rule: dispatch.induct)
     (simp_all add: next_activity_eq split: sum.splits option.splits)

lemma dispatch_streams [simp]: "streams (dispatch dec ev hs s) = streams s"
  by (induction dec ev hs s rule: dispatch.induct)
     (simp_all add: next_activity_eq split: sum.splits option.splits)

lemma dispatch_inbox [simp]: "inbox (dispatch dec ev hs s) = inbox s"
  by (induction dec ev hs s rule: dispatch.induct)
     (simp_all add: next_activity_eq split: sum.splits option.splits)

lemma dispatch_getRoomObservables [simp]: "getRoomObservables (dispatch dec ev hs s) = getRoomObservables s"
  by (induction dec ev hs s rule: dispatch.induct)
     (simp_all add: next_activity_eq split: sum.splits option.splits)

lemma dispatch_calls [simp]: "calls (dispatch dec ev hs s) = calls s"
  by (induction dec ev hs s rule: dispatch.induct)
     (simp_all add: next_activity_eq split: sum.splits option.splits)

lemma dispatch_listenerCount [simp]: "listenerCount (dispatch dec ev hs s) = listenerCount s"
  by (induction dec ev hs s rule: dispatch.induct)
     (simp_all add: next_activity_eq split: sum.splits option.splits)

lemma activity_ok_trigger_activity: "activity_ok s \<Longrightarrow> activity_ok (trigger_activity dec ev s)"
  by (simp add: activity_ok_def trigger_activity_def)


lemma same_activities_refl [simp]: "same_activities s s"
  by (simp add: same_activities_def)

lemma same_activities_trans: "same_activities s t \<Longrightarrow> same_activities t u \<Longrightarrow> same_activities s u"
  by (simp add: same_activities_def)

lemma same_rooms_refl [simp]: "same_rooms s s"
  by (simp add: same_rooms_def)

lemma same_rooms_trans: "same_rooms s t \<Longrightarrow> same_rooms t u \<Longrightarrow> same_rooms s u"
  by (simp add: same_rooms_def)

lemma activity_ok_same: "same_activities s t \<Longrightarrow> activity_ok s \<Longrightarrow> activity_ok t"
  by (simp add: same_activities_def activity_ok_def)

lemma cache_ok_same: "same_rooms s t \<Longrightarrow> cache_ok s \<Longrightarrow> cache_ok t"
  by (simp add: same_rooms_def cache_ok_def)

lemma streams_ok_same: "same_rooms s t \<Longrightarrow> streams_ok s \<Longrightarrow> streams_ok t"
  by (simp add: same_rooms_def streams_ok_def)

lemma same_activities_fail: "h < length (streams s) \<Longrightarrow> same_activities s (fail h e s)"
  by (simp add: same_activities_def fail_eq)

lemma same_activities_getRoom: "same_activities s (snd (getRoom i s))"
  by (cases "getRoomObservables s i") (simp_all add: getRoom_miss getRoom_hit same_activities_def)

lemma same_activities_subscribe: "same_activities s (subscribe h ob s)"
  by (simp add: same_activities_def subscribe_def Let_def split: option.splits)

lemma same_activities_unsubscribe: "same_activities s (unsubscribe h ob s)"
  by (simp add: same_activities_def unsubscribe_def Let_def disconnect_eq)

lemma same_activities_settle: "same_activities s (settle p g s)"
  by (simp add: same_activities_def settle_def)

lemma same_activities_microtask: "same_activities s (microtask h p s)"
  using microtask_cases [of h p s]
  by (elim disjE conjE exE) (simp_all add: same_activities_fail, simp_all add: same_activities_def)

lemma same_activities_on_updated: "same_activities s (on_updated ev h s)"
  using on_updated_cases [of ev h s]
  by (elim disjE conjE exE) (simp_all add: same_activities_fail, simp_all add: same_activities_def)

lemma same_activities_trigger_updated: "same_activities s (trigger_updated ev s)"
  unfolding trigger_updated_def
  by (rule fold_inv [where P = "same_activities s"])
     (simp_all add: same_activities_trans [OF _ same_activities_on_updated])

lemma same_rooms_getRoomActivities: "same_rooms s (snd (getRoomActivities i s))"
  by (cases "getRoomActivitiesCache s i")
     (simp_all add: getRoomActivities_miss getRoomActivities_hit same_rooms_def)

lemma same_rooms_watch: "same_rooms s (watch h ob s)"
  by (simp add: same_rooms_def watch_def Let_def)

lemma same_rooms_unwatch: "same_rooms s (unwatch h ob s)"
  by (simp add: same_rooms_def unwatch_def Let_def)

lemma dispatch_listeners [simp]: "listeners (dispatch dec ev hs s) = listeners s"
  by (induction dec ev hs s rule: dispatch.induct)
     (simp_all add: next_activity_eq split: sum.splits option.splits)

lemma dispatch_promises [simp]: "promises (dispatch dec ev hs s) = promises s"
  by (induction dec ev hs s rule: dispatch.induct)
     (simp_all add: next_activity_eq split: sum.splits option.splits)

lemma same_rooms_trigger_activity: "same_rooms s (trigger_activity dec ev s)"
  by (simp add: same_rooms_def trigger_activity_def)

lemma wf_init: "wf init"
  by (simp add: wf_def cache_ok_def streams_ok_def activity_ok_def init_def)

lemma wf_step: "wf s \<Longrightarrow> wf (step dec e s)"
proof (cases e)
  case (GetRoom i)
  assume "wf s"
  with GetRoom show ?thesis
    by (simp add: wf_def cache_ok_getRoom streams_ok_getRoom activity_ok_same [OF same_activities_getRoom])
next
  case (Subscribe h ob)
  assume "wf s"
  with Subscribe show ?thesis
    by (simp add: wf_def cache_ok_subscribe streams_ok_subscribe activity_ok_same [OF same_activities_subscribe])
next
  case (Unsubscribe h ob)
  assume "wf s"
  with Unsubscribe show ?thesis
    by (simp add: wf_def cache_ok_unsubscribe streams_ok_unsubscribe
          activity_ok_same [OF same_activities_unsubscribe])
next
  case (Settle p g)
  assume "wf s"
  with Settle show ?thesis
    by (simp add: wf_def cache_ok_settle streams_ok_settle activity_ok_same [OF same_activities_settle])
next
  case (Microtask h p)
  assume "wf s"
  with Microtask show ?thesis
    by (simp add: wf_def cache_ok_microtask streams_ok_microtask
          activity_ok_same [OF same_activities_microtask])
next
  case (RoomUpdated ev)
  assume "wf s"
  with RoomUpdated show ?thesis
    by (simp add: wf_def cache_ok_trigger_updated streams_ok_trigger_updated
          activity_ok_same [OF same_activities_trigger_updated])
next
  case (GetRoomActivities i)
  assume "wf s"
  with GetRoomActivities show ?thesis
    by (simp add: wf_def activity_ok_getRoomActivities
          cache_ok_same [OF same_rooms_getRoomActivities]
          streams_ok_same [OF same_rooms_getRoomActivities])
next
  case (Watch h ob)
  assume "wf s"
  with Watch show ?thesis
    by (simp add: wf_def activity_ok_watch cache_ok_same [OF same_rooms_watch]
          streams_ok_same [OF same_rooms_watch])
next
  case (Unwatch h ob)
  assume "wf s"
  with Unwatch show ?thesis
    by (simp add: wf_def activity_ok_unwatch cache_ok_same [OF same_rooms_unwatch]
          streams_ok_same [OF same_rooms_unwatch])
next
  case (ActivityEvent ev)
  assume "wf s"
  with ActivityEvent show ?thesis
    by (simp add: wf_def activity_ok_trigger_activity cache_ok_same [OF same_rooms_trigger_activity]
          streams_ok_same [OF same_rooms_trigger_activity])
qed

lemma wf_run: "wf s \<Longrightarrow> wf (run dec es s)"
  by (induction es arbitrary: s) (simp_all add: wf_step)


section \<open>The gate in runs of the adapter\<close>

lemma gate_inv_same:
  "calls t = calls s \<Longrightarrow> listenerCount t = listenerCount s \<Longrightarrow> gate_inv s \<Longrightarrow> gate_inv t"
  by (simp add: gate_inv_def)

lemma gate_inv_fail: "h < length (streams s) \<Longrightarrow> gate_inv s \<Longrightarrow> gate_inv (fail h e s)"
  by (auto simp: gate_inv_def fail_eq alternating_append channel_append)

lemma gate_inv_getRoom: "gate_inv s \<Longrightarrow> gate_inv (snd (getRoom i s))"
  by (cases "getRoomObservables s i")
     (auto simp: getRoom_miss getRoom_hit gate_inv_def alternating_append channel_append)

lemma gate_inv_subscribe: "gate_inv s \<Longrightarrow> gate_inv (subscribe h ob s)"
  by (rule gate_inv_same [of _ s]) (simp_all add: subscribe_def Let_def split: option.splits)

lemma gate_inv_unsubscribe: "gate_inv s \<Longrightarrow> gate_inv (unsubscribe h ob s)"
  by (auto simp: gate_inv_def unsubscribe_def Let_def disconnect_eq alternating_append channel_append)

lemma gate_inv_settle: "gate_inv s \<Longrightarrow> gate_inv (settle p g s)"
  by (simp add: gate_inv_def settle_def)

lemma gate_inv_microtask: "gate_inv s \<Longrightarrow> gate_inv (microtask h p s)"
  using microtask_cases [of h p s]
  by (elim disjE conjE exE) (simp_all add: gate_inv_fail, simp_all add: gate_inv_def)

lemma gate_inv_on_updated: "gate_inv s \<Longrightarrow> gate_inv (on_updated ev h s)"
  using on_updated_cases [of ev h s]
  by (elim disjE conjE exE)
     (simp_all add: gate_inv_fail, simp_all add: gate_inv_def alternating_append channel_append)

lemma gate_inv_trigger_updated: "gate_inv s \<Longrightarrow> gate_inv (trigger_updated ev s)"
  unfolding trigger_updated_def by (rule fold_inv) (simp_all add: gate_inv_on_updated)

lemma gate_inv_getRoomActivities: "gate_inv s \<Longrightarrow> gate_inv (snd (getRoomActivities i s))"
  by (cases "getRoomActivitiesCache s i")
     (simp_all add: getRoomActivities_miss getRoomActivities_hit gate_inv_def alternating_append
        channel_append)

lemma gate_inv_step: "gate_inv s \<Longrightarrow> gate_inv (step dec e s)"
proof (cases e)
  case (Watch h ob)
  assume "gate_inv s"
  then show ?thesis unfolding Watch by (simp add: gate_inv_def watch_def Let_def)
next
  case (Unwatch h ob)
  assume "gate_inv s"
  then show ?thesis unfolding Unwatch by (simp add: gate_inv_def unwatch_def Let_def)
next
  case (ActivityEvent ev)
  assume "gate_inv s"
  then show ?thesis unfolding ActivityEvent by (simp add: gate_inv_def trigger_activity_def)
qed (simp_all add: gate_inv_getRoom gate_inv_subscribe gate_inv_unsubscribe gate_inv_settle
       gate_inv_microtask gate_inv_trigger_updated gate_inv_getRoomActivities)

lemma gate_inv_run: "gate_inv s \<Longrightarrow> gate_inv (run dec es s)"
  by (induction es arbitrary: s) (simp_all add: gate_inv_step)

text \<open>
  Claim C5: after every sequence of calls of the two gate methods on a new adapter,
  releases beyond zero included, the log never shows \<open>rooms.listen\<close> called twice without
  \<open>rooms.stopListening\<close> called in between. The same holds for the log of every run of the
  adapter, where the two methods are called by \<open>getRoom\<close> and by the teardown of streams.
\<close>

theorem listen_never_twice_without_stop:
  "alternating False (calls (gate_run gs init)) \<and> alternating False (calls (run dec es init))"
  using gate_inv_gate_run [OF gate_inv_init, of gs] gate_inv_run [OF gate_inv_init, of dec es]
  by (simp add: gate_inv_def)

theorem listen_never_twice_without_stop_witness:
  "alternating False
     (calls (gate_run [Release, Acquire, Acquire, Release, Release, Release, Acquire] init)) \<and>
   calls (gate_run [Release, Acquire, Acquire] init) =
     [StopListeningToRoomUpdates, RoomsStopListening, StartListeningToRoomUpdates,
      StartListeningToRoomUpdates, RoomsListen]"
  using listen_never_twice_without_stop
          [of "[Release, Acquire, Acquire, Release, Release, Release, Acquire]" "\<lambda>x. x" "[]"]
  by (simp add: startListeningToRoomUpdates_def stopListeningToRoomUpdates_def init_def log_def Let_def)

section \<open>Properties of the room streams\<close>

lemmas eval_defs = init_def getRoom_def startListeningToRoomUpdates_def stopListeningToRoomUpdates_def
  log_def fetchRoom_def Let_def new_stream_def subscribe_def unsubscribe_def settle_def microtask_def
  room_settled_def refetch_settled_def fetchRoom_result_def next_room_def deliver_def replay_def
  finalize_def disconnect_def fail_def on_updated_def trigger_updated_def matches_def
  on_activity_def next_activity_def getRoomActivities_def watch_def unwatch_def trigger_activity_def

lemma subscribe_live:
  "h < length (streams s) \<Longrightarrow> thrownError (streams s ! h) = None \<Longrightarrow>
   subscribe h ob s =
     (if ob \<in> set (observers (streams s ! h)) then s
      else s\<lparr>streams := (streams s)[h := (streams s ! h)\<lparr>observers := observers (streams s ! h) @ [ob],
                   connection := (case connection (streams s ! h) of
                                    None \<Rightarrow> Some AwaitingRoom | Some c \<Rightarrow> Some c)\<rparr>],
             inbox := (inbox s)((h, ob) := inbox s (h, ob) @ replay (streams s ! h))\<rparr>)"
  by (simp add: subscribe_def Let_def)















lemma microtask_fanout:
  assumes "h < length (streams s)"
    and "ob \<in> set (observers (streams s ! h))"
    and "ob' \<in> set (observers (streams s ! h))"
  shows "\<exists>ns. inbox (microtask h q s) (h, ob) = inbox s (h, ob) @ ns \<and>
              inbox (microtask h q s) (h, ob') = inbox s (h, ob') @ ns"
  using microtask_cases [of h q s]
proof (elim disjE conjE exE)
  assume "microtask h q s = s"
  then show ?thesis by simp
next
  fix e assume "microtask h q s = fail h e s"
  with assms show ?thesis by (simp add: fail_eq deliver_same)
next
  fix r
  assume "microtask h q s =
    s\<lparr>streams := (streams s)[h := (streams s ! h)\<lparr>buffer := Some (q, r), connection := Some (ListeningForUpdates [])\<rparr>],
      inbox := deliver h (observers (streams s ! h)) (Next q r) (inbox s),
      listeners := listeners s @ [h]\<rparr>"
  with assms show ?thesis by (simp add: deliver_same)
next
  fix ps r
  assume "microtask h q s =
    s\<lparr>streams := (streams s)[h := (streams s ! h)\<lparr>buffer := Some (q, r), connection := Some (ListeningForUpdates (removeAll q ps))\<rparr>],
      inbox := deliver h (observers (streams s ! h)) (Next q r) (inbox s)\<rparr>"
  with assms show ?thesis by (simp add: deliver_same)
qed

lemma late_subscriber_replay:
  assumes "getRoomObservables (run dec es init) i = Some h"
    and "buffer (streams (run dec es init) ! h) = Some (p, r)"
    and "ob \<notin> set (observers (streams (run dec es init) ! h))"
  shows "inbox (subscribe h ob (run dec es init)) (h, ob) = inbox (run dec es init) (h, ob) @ [Next p r] \<and>
         (\<forall>ob' \<in> set (observers (streams (run dec es init) ! h)).
            last (inbox (run dec es init) (h, ob')) = Next p r) \<and>
         calls (subscribe h ob (run dec es init)) = calls (run dec es init) \<and>
         promises (subscribe h ob (run dec es init)) = promises (run dec es init) \<and>
         (\<forall>q. \<forall>ob' \<in> set (observers (streams (run dec es init) ! h)).
            \<exists>ns. inbox (microtask h q (subscribe h ob (run dec es init))) (h, ob) =
                   inbox (subscribe h ob (run dec es init)) (h, ob) @ ns \<and>
                 inbox (microtask h q (subscribe h ob (run dec es init))) (h, ob') =
                   inbox (subscribe h ob (run dec es init)) (h, ob') @ ns)"
proof -
  let ?s = "run dec es init"
  have wf: "wf ?s" by (rule wf_run [OF wf_init])
  then have "cache_ok ?s" and so: "streams_ok ?s" by (simp_all add: wf_def)
  with assms(1) have h: "h < length (streams ?s)" and live: "thrownError (streams ?s ! h) = None"
    by (auto simp: cache_ok_def)
  from so h have ok: "stream_ok (inbox ?s) h (streams ?s ! h)" by (rule streams_okD)
  have sub: "subscribe h ob ?s =
      ?s\<lparr>streams := (streams ?s)[h := (streams ?s ! h)\<lparr>observers := observers (streams ?s ! h) @ [ob],
                   connection := (case connection (streams ?s ! h) of
                                    None \<Rightarrow> Some AwaitingRoom | Some c \<Rightarrow> Some c)\<rparr>],
          inbox := (inbox ?s)((h, ob) := inbox ?s (h, ob) @ replay (streams ?s ! h))\<rparr>"
    using h live assms(3) by (simp add: subscribe_live)
  have a: "inbox (subscribe h ob ?s) (h, ob) = inbox ?s (h, ob) @ [Next p r]"
    using assms(2) by (simp add: sub replay_def)
  have b: "\<forall>ob' \<in> set (observers (streams ?s ! h)). last (inbox ?s (h, ob')) = Next p r"
    using ok assms(2) by (simp add: stream_ok_def)
  have c: "calls (subscribe h ob ?s) = calls ?s" and d: "promises (subscribe h ob ?s) = promises ?s"
    by (simp_all add: sub)
  have e: "\<exists>ns. inbox (microtask h q (subscribe h ob ?s)) (h, ob) = inbox (subscribe h ob ?s) (h, ob) @ ns \<and>
                inbox (microtask h q (subscribe h ob ?s)) (h, ob') = inbox (subscribe h ob ?s) (h, ob') @ ns"
    if "ob' \<in> set (observers (streams ?s ! h))" for q ob'
  proof (rule microtask_fanout)
    show "h < length (streams (subscribe h ob ?s))" using h by (simp add: sub)
    show "ob \<in> set (observers (streams (subscribe h ob ?s) ! h))" using h by (simp add: sub)
    show "ob' \<in> set (observers (streams (subscribe h ob ?s) ! h))" using h that by (simp add: sub)
  qed
  from a b c d e show ?thesis by blast
qed

lemma removeAll_empty_iff: "removeAll x xs = [] \<longleftrightarrow> set xs \<subseteq> {x}"
  by (induction xs) auto

text \<open>
  Claim C3: in every state the adapter can reach, when a stream has exactly one observer
  left and that observer unsubscribes, teardown runs once: \<open>stopListeningToRoomUpdates\<close>
  is called exactly once, the cache entry of the stream's room is removed, the stream is
  left disconnected without observers, and unsubscribing again does nothing. The next
  call of \<open>getRoom\<close> for that room builds a new stream: it calls
  \<open>startListeningToRoomUpdates\<close> and \<open>rooms.get\<close> afresh.
\<close>

theorem last_unsubscribe_tears_down_once:
  assumes "h < length (streams (run dec es init))"
    and "set (observers (streams (run dec es init) ! h)) = {ob}"
  shows "calls (unsubscribe h ob (run dec es init)) =
           calls (run dec es init) @ StopListeningToRoomUpdates #
             (if listenerCount (run dec es init) \<le> 1 then [RoomsStopListening] else []) \<and>
         listenerCount (unsubscribe h ob (run dec es init)) = listenerCount (run dec es init) - 1 \<and>
         getRoomObservables (unsubscribe h ob (run dec es init))
           (room_id (streams (run dec es init) ! h)) = None \<and>
         observers (streams (unsubscribe h ob (run dec es init)) ! h) = [] \<and>
         connection (streams (unsubscribe h ob (run dec es init)) ! h) = None \<and>
         unsubscribe h ob (unsubscribe h ob (run dec es init)) = unsubscribe h ob (run dec es init) \<and>
         fst (getRoom (room_id (streams (run dec es init) ! h)) (unsubscribe h ob (run dec es init))) =
           length (streams (run dec es init)) \<and>
         calls (snd (getRoom (room_id (streams (run dec es init) ! h))
                  (unsubscribe h ob (run dec es init)))) =
           calls (unsubscribe h ob (run dec es init)) @ StartListeningToRoomUpdates #
             (if listenerCount (unsubscribe h ob (run dec es init)) = 0 then [RoomsListen] else []) @
             [RoomsGet (room_id (streams (run dec es init) ! h))]"
proof -
  let ?s = "run dec es init"
  let ?i = "room_id (streams ?s ! h)"
  have "wf ?s" by (rule wf_run [OF wf_init])
  then have "streams_ok ?s" by (simp add: wf_def)
  from streams_okD [OF this assms(1)] assms(2)
  have conn: "connection (streams ?s ! h) \<noteq> None"
    by (auto simp: stream_ok_def)
  have rest: "removeAll ob (observers (streams ?s ! h)) = []"
    using assms(2) by (simp add: removeAll_empty_iff)
  have mem: "ob \<in> set (observers (streams ?s ! h))"
    using assms(2) by simp
  have u: "unsubscribe h ob ?s =
     ?s\<lparr>calls := calls ?s @ StopListeningToRoomUpdates # (if listenerCount ?s \<le> 1 then [RoomsStopListening] else []),
       listenerCount := listenerCount ?s - 1,
       getRoomObservables := (getRoomObservables ?s)(?i := None),
       streams := (streams ?s)[h := (streams ?s ! h)\<lparr>observers := [], connection := None\<rparr>],
       listeners := removeAll h (listeners ?s)\<rparr>"
    using assms(1) conn rest mem by (simp add: unsubscribe_def Let_def disconnect_eq)
  have 1: "calls (unsubscribe h ob ?s) =
           calls ?s @ StopListeningToRoomUpdates # (if listenerCount ?s \<le> 1 then [RoomsStopListening] else [])"
    and 2: "listenerCount (unsubscribe h ob ?s) = listenerCount ?s - 1"
    and 3: "getRoomObservables (unsubscribe h ob ?s) ?i = None"
    and 4: "observers (streams (unsubscribe h ob ?s) ! h) = []"
    and 5: "connection (streams (unsubscribe h ob ?s) ! h) = None"
    and 6: "length (streams (unsubscribe h ob ?s)) = length (streams ?s)"
    using assms(1) by (simp_all add: u)
  have 7: "unsubscribe h ob (unsubscribe h ob ?s) = unsubscribe h ob ?s"
    using 4 by (simp add: unsubscribe_def [of h ob "unsubscribe h ob ?s"])
  have 8: "fst (getRoom ?i (unsubscribe h ob ?s)) = length (streams ?s)"
    and 9: "calls (snd (getRoom ?i (unsubscribe h ob ?s))) =
           calls (unsubscribe h ob ?s) @ StartListeningToRoomUpdates #
             (if listenerCount (unsubscribe h ob ?s) = 0 then [RoomsListen] else []) @ [RoomsGet ?i]"
    using 3 6 by (simp_all add: getRoom_miss)
  from 1 2 3 4 5 7 8 9 show ?thesis by blast
qed

theorem last_unsubscribe_tears_down_once_witness:
  "0 < length (streams (run (\<lambda>x. x) [GetRoom ''room-1'', Subscribe 0 1, Subscribe 0 2, Unsubscribe 0 1] init)) \<and>
   set (observers (streams (run (\<lambda>x. x) [GetRoom ''room-1'', Subscribe 0 1, Subscribe 0 2, Unsubscribe 0 1] init) ! 0)) = {2} \<and>
   calls (run (\<lambda>x. x) [GetRoom ''room-1'', Subscribe 0 1, Subscribe 0 2, Unsubscribe 0 1] init) =
     [StartListeningToRoomUpdates, RoomsListen, RoomsGet ''room-1''] \<and>
   calls (unsubscribe 0 2 (run (\<lambda>x. x) [GetRoom ''room-1'', Subscribe 0 1, Subscribe 0 2, Unsubscribe 0 1] init)) =
     [StartListeningToRoomUpdates, RoomsListen, RoomsGet ''room-1'',
      StopListeningToRoomUpdates, RoomsStopListening] \<and>
   getRoomObservables (unsubscribe 0 2 (run (\<lambda>x. x) [GetRoom ''room-1'', Subscribe 0 1, Subscribe 0 2, Unsubscribe 0 1] init))
     ''room-1'' = None"
proof -
  let ?s = "run (\<lambda>x. x) [GetRoom ''room-1'', Subscribe 0 1, Subscribe 0 2, Unsubscribe 0 1] init"
  have 1: "0 < length (streams ?s)" by (simp add: eval_defs)
  have 2: "set (observers (streams ?s ! 0)) = {2}" by (simp add: eval_defs)
  have 3: "calls ?s = [StartListeningToRoomUpdates, RoomsListen, RoomsGet ''room-1'']"
    by (simp add: eval_defs)
  have 4: "listenerCount ?s = 1" by (simp add: eval_defs)
  have 5: "room_id (streams ?s ! 0) = ''room-1''" by (simp add: eval_defs)
  from last_unsubscribe_tears_down_once [OF 1 2] 1 2 3 show ?thesis
    unfolding 3 4 5 by simp
qed

lemma rejected_fetch_observed:
  assumes "h < length (streams s)"
    and "connection (streams s ! h) = Some AwaitingRoom"
    and "room_promise (streams s ! h) = p"
    and "p < length (promises s)"
    and "promises s ! p = Pending"
  shows "(\<forall>ob \<in> set (observers (streams s ! h)).
            inbox (run dec [Settle p (Rejected e), Microtask h p] s) (h, ob) = inbox s (h, ob) @ [Error e]) \<and>
         observers (streams (run dec [Settle p (Rejected e), Microtask h p] s) ! h) = [] \<and>
         thrownError (streams (run dec [Settle p (Rejected e), Microtask h p] s) ! h) = Some e \<and>
         connection (streams (run dec [Settle p (Rejected e), Microtask h p] s) ! h) = None \<and>
         calls (run dec [Settle p (Rejected e), Microtask h p] s) =
           calls s @ StopListeningToRoomUpdates # (if listenerCount s \<le> 1 then [RoomsStopListening] else []) \<and>
         listenerCount (run dec [Settle p (Rejected e), Microtask h p] s) = listenerCount s - 1 \<and>
         getRoomObservables (run dec [Settle p (Rejected e), Microtask h p] s) (room_id (streams s ! h)) = None \<and>
         fst (getRoom (room_id (streams s ! h)) (run dec [Settle p (Rejected e), Microtask h p] s)) =
           length (streams s) \<and>
         calls (snd (getRoom (room_id (streams s ! h)) (run dec [Settle p (Rejected e), Microtask h p] s))) =
           calls (run dec [Settle p (Rejected e), Microtask h p] s) @ StartListeningToRoomUpdates #
             (if listenerCount (run dec [Settle p (Rejected e), Microtask h p] s) = 0 then [RoomsListen] else []) @
             [RoomsGet (room_id (streams s ! h))]"
proof -
  let ?t = "settle p (Rejected e) s"
  let ?u = "run dec [Settle p (Rejected e), Microtask h p] s"
  let ?i = "room_id (streams s ! h)"
  have t: "?t = s\<lparr>promises := (promises s)[p := Rejected e]\<rparr>"
    using assms(4,5) by (simp add: settle_def)
  have res: "fetchRoom_result (promises ?t ! room_promise (streams ?t ! h)) = Rejected e"
    using assms(3,4) by (simp add: t fetchRoom_result_def)
  have ht: "h < length (streams ?t)" using assms(1) by (simp add: t)
  have "?u = microtask h p ?t" by simp
  also have "\<dots> = room_settled h ?t"
    using assms(1-4) by (simp add: microtask_def t)
  also have "\<dots> = fail h e ?t"
    using res by (rule room_settled_rejected)
  finally have u: "?u = fail h e ?t" .
  have 1: "\<forall>ob \<in> set (observers (streams s ! h)). inbox ?u (h, ob) = inbox s (h, ob) @ [Error e]"
    and 2: "observers (streams ?u ! h) = []"
    and 3: "thrownError (streams ?u ! h) = Some e"
    and 4: "connection (streams ?u ! h) = None"
    and 5: "calls ?u = calls s @ StopListeningToRoomUpdates # (if listenerCount s \<le> 1 then [RoomsStopListening] else [])"
    and 6: "listenerCount ?u = listenerCount s - 1"
    and 7: "getRoomObservables ?u ?i = None"
    and 8: "length (streams ?u) = length (streams s)"
    unfolding u fail_eq [OF ht] using assms(1) by (simp_all add: t deliver_same)
  have 9: "fst (getRoom ?i ?u) = length (streams s)"
    and 10: "calls (snd (getRoom ?i ?u)) =
           calls ?u @ StartListeningToRoomUpdates # (if listenerCount ?u = 0 then [RoomsListen] else []) @ [RoomsGet ?i]"
    using 7 8 by (simp_all only: getRoom_miss fst_conv snd_conv, simp_all)
  from 1 2 3 4 5 6 7 9 10 show ?thesis by blast
qed

lemma rejected_fetch_unobserved:
  assumes "h < length (streams s)"
    and "connection (streams s ! h) = None"
    and "thrownError (streams s ! h) = None"
    and "ob \<notin> set (observers (streams s ! h))"
    and "room_promise (streams s ! h) = p"
    and "p < length (promises s)"
    and "promises s ! p = Pending"
  shows "calls (settle p (Rejected e) s) = calls s \<and>
         listenerCount (settle p (Rejected e) s) = listenerCount s \<and>
         getRoomObservables (settle p (Rejected e) s) = getRoomObservables s \<and>
         streams (settle p (Rejected e) s) = streams s \<and>
         inbox (settle p (Rejected e) s) = inbox s \<and>
         inbox (run dec [Settle p (Rejected e), Subscribe h ob, Microtask h p] s) (h, ob) =
           inbox s (h, ob) @ replay (streams s ! h) @ [Error e] \<and>
         observers (streams (run dec [Settle p (Rejected e), Subscribe h ob, Microtask h p] s) ! h) = [] \<and>
         thrownError (streams (run dec [Settle p (Rejected e), Subscribe h ob, Microtask h p] s) ! h) = Some e \<and>
         calls (run dec [Settle p (Rejected e), Subscribe h ob, Microtask h p] s) =
           calls s @ StopListeningToRoomUpdates # (if listenerCount s \<le> 1 then [RoomsStopListening] else []) \<and>
         listenerCount (run dec [Settle p (Rejected e), Subscribe h ob, Microtask h p] s) = listenerCount s - 1 \<and>
         getRoomObservables (run dec [Settle p (Rejected e), Subscribe h ob, Microtask h p] s)
           (room_id (streams s ! h)) = None \<and>
         fst (getRoom (room_id (streams s ! h))
                (run dec [Settle p (Rejected e), Subscribe h ob, Microtask h p] s)) = length (streams s) \<and>
         calls (snd (getRoom (room_id (streams s ! h))
                (run dec [Settle p (Rejected e), Subscribe h ob, Microtask h p] s))) =
           calls (run dec [Settle p (Rejected e), Subscribe h ob, Microtask h p] s) @
             StartListeningToRoomUpdates #
             (if listenerCount (run dec [Settle p (Rejected e), Subscribe h ob, Microtask h p] s) = 0
              then [RoomsListen] else []) @
             [RoomsGet (room_id (streams s ! h))]"
proof -
  define t where "t = settle p (Rejected e) s"
  define v where "v = subscribe h ob t"
  define u where "u = run dec [Settle p (Rejected e), Subscribe h ob, Microtask h p] s"
  let ?i = "room_id (streams s ! h)"
  have t: "t = s\<lparr>promises := (promises s)[p := Rejected e]\<rparr>"
    using assms(6,7) by (simp add: t_def settle_def)
  have v: "v = t\<lparr>streams := (streams s)[h := (streams s ! h)\<lparr>observers := observers (streams s ! h) @ [ob],
                      connection := Some AwaitingRoom\<rparr>],
                  inbox := (inbox s)((h, ob) := inbox s (h, ob) @ replay (streams s ! h))\<rparr>"
    using assms(1-4) by (simp add: v_def subscribe_def Let_def t)
  have hv: "h < length (streams v)" using assms(1) by (simp add: v)
  have res: "fetchRoom_result (promises v ! room_promise (streams v ! h)) = Rejected e"
    using assms(1,5,6) by (simp add: v t fetchRoom_result_def)
  have "u = microtask h p v" by (simp add: u_def v_def t_def)
  also have "\<dots> = room_settled h v"
    using assms(1,5,6) by (simp add: microtask_def v t)
  also have "\<dots> = fail h e v"
    using res by (rule room_settled_rejected)
  finally have u: "u = fail h e v" .
  have a: "calls t = calls s" "listenerCount t = listenerCount s"
    "getRoomObservables t = getRoomObservables s" "streams t = streams s" "inbox t = inbox s"
    by (simp_all add: t)
  have 1: "inbox u (h, ob) = inbox s (h, ob) @ replay (streams s ! h) @ [Error e]"
    and 2: "observers (streams u ! h) = []"
    and 3: "thrownError (streams u ! h) = Some e"
    and 5: "calls u = calls s @ StopListeningToRoomUpdates # (if listenerCount s \<le> 1 then [RoomsStopListening] else [])"
    and 6: "listenerCount u = listenerCount s - 1"
    and 7: "getRoomObservables u ?i = None"
    and 8: "length (streams u) = length (streams s)"
    unfolding u fail_eq [OF hv] using assms(1) by (simp_all add: v t deliver_same)
  have 9: "fst (getRoom ?i u) = length (streams s)"
    and 10: "calls (snd (getRoom ?i u)) =
           calls u @ StartListeningToRoomUpdates # (if listenerCount u = 0 then [RoomsListen] else []) @ [RoomsGet ?i]"
    using 7 8 by (simp_all only: getRoom_miss fst_conv snd_conv, simp_all)
  from a 1 2 3 5 6 7 9 10 show ?thesis
    unfolding t_def u_def by blast
qed

text \<open>
  Claim C7, as stated: whenever the fetch of a room is rejected, the stream ends with an
  error, the gate is released and the cache entry is removed, so that a later \<open>getRoom\<close>
  fetches afresh. It does not hold when the fetch is rejected before anyone has
  subscribed: \<open>getRoom\<close> has acquired the gate and started the fetch, but the stream has no
  connection whose teardown could run. The counter stays at one, nothing is released, the
  entry stays, and \<open>getRoom\<close> returns the cached stream without a new fetch.
\<close>

theorem rejected_fetch_without_observer_keeps_entry:
  "promises (run (\<lambda>x. x) [GetRoom ''room-1'', Settle 0 (Rejected (SdkError ''not found''))] init) ! 0 =
     Rejected (SdkError ''not found'') \<and>
   calls (run (\<lambda>x. x) [GetRoom ''room-1'', Settle 0 (Rejected (SdkError ''not found''))] init) =
     [StartListeningToRoomUpdates, RoomsListen, RoomsGet ''room-1''] \<and>
   listenerCount (run (\<lambda>x. x) [GetRoom ''room-1'', Settle 0 (Rejected (SdkError ''not found''))] init) = 1 \<and>
   getRoomObservables (run (\<lambda>x. x) [GetRoom ''room-1'', Settle 0 (Rejected (SdkError ''not found''))] init)
     ''room-1'' = Some 0 \<and>
   thrownError (streams (run (\<lambda>x. x) [GetRoom ''room-1'', Settle 0 (Rejected (SdkError ''not found''))] init) ! 0) = None \<and>
   fst (getRoom ''room-1''
     (run (\<lambda>x. x) [GetRoom ''room-1'', Settle 0 (Rejected (SdkError ''not found''))] init)) = 0 \<and>
   calls (snd (getRoom ''room-1''
     (run (\<lambda>x. x) [GetRoom ''room-1'', Settle 0 (Rejected (SdkError ''not found''))] init))) =
     [StartListeningToRoomUpdates, RoomsListen, RoomsGet ''room-1'']"
  by (simp add: eval_defs)

text \<open>
  Claim C7, amended: when the fetch that a connected stream is waiting for is rejected,
  every observer of the stream receives the error as its next notification and teardown
  runs: the stream is left stopped without observers, \<open>stopListeningToRoomUpdates\<close> is
  called once, the cache entry of the room is removed, and the next \<open>getRoom\<close> for the room
  builds a new stream and calls \<open>rooms.get\<close> afresh. When the fetch is rejected while the
  stream has no connection, the rejection by itself changes nothing but the promise:
  nothing is released and no entry is removed; the first observer that subscribes then
  receives the error, and teardown runs in the same way.
\<close>

theorem rejected_fetch_tears_down_once_observed:
  assumes "h < length (streams s)"
    and "room_promise (streams s ! h) = p"
    and "p < length (promises s)"
    and "promises s ! p = Pending"
  shows "(connection (streams s ! h) = Some AwaitingRoom \<longrightarrow>
            (\<forall>ob \<in> set (observers (streams s ! h)).
               inbox (run dec [Settle p (Rejected e), Microtask h p] s) (h, ob) = inbox s (h, ob) @ [Error e]) \<and>
            torn_down s h e (run dec [Settle p (Rejected e), Microtask h p] s)) \<and>
         (connection (streams s ! h) = None \<and> thrownError (streams s ! h) = None \<and>
          ob \<notin> set (observers (streams s ! h)) \<longrightarrow>
            calls (settle p (Rejected e) s) = calls s \<and>
            listenerCount (settle p (Rejected e) s) = listenerCount s \<and>
            getRoomObservables (settle p (Rejected e) s) = getRoomObservables s \<and>
            streams (settle p (Rejected e) s) = streams s \<and>
            inbox (settle p (Rejected e) s) = inbox s \<and>
            inbox (run dec [Settle p (Rejected e), Subscribe h ob, Microtask h p] s) (h, ob) =
              inbox s (h, ob) @ replay (streams s ! h) @ [Error e] \<and>
            torn_down s h e (run dec [Settle p (Rejected e), Subscribe h ob, Microtask h p] s))"
proof (intro conjI impI)
  assume c: "connection (streams s ! h) = Some AwaitingRoom"
  note a = rejected_fetch_observed [OF assms(1) c assms(2-4), of dec e]
  from a show "\<forall>ob \<in> set (observers (streams s ! h)).
               inbox (run dec [Settle p (Rejected e), Microtask h p] s) (h, ob) = inbox s (h, ob) @ [Error e]"
    by blast
  from a show "torn_down s h e (run dec [Settle p (Rejected e), Microtask h p] s)"
    unfolding torn_down_def by blast
next
  assume c: "connection (streams s ! h) = None \<and> thrownError (streams s ! h) = None \<and>
          ob \<notin> set (observers (streams s ! h))"
  then have c1: "connection (streams s ! h) = None" and c2: "thrownError (streams s ! h) = None"
    and c3: "ob \<notin> set (observers (streams s ! h))" by simp_all
  note b = rejected_fetch_unobserved [OF assms(1) c1 c2 c3 assms(2-4), of e dec]
  from b show "calls (settle p (Rejected e) s) = calls s" by blast
  from b show "listenerCount (settle p (Rejected e) s) = listenerCount s" by blast
  from b show "getRoomObservables (settle p (Rejected e) s) = getRoomObservables s" by blast
  from b show "streams (settle p (Rejected e) s) = streams s" by blast
  from b show "inbox (settle p (Rejected e) s) = inbox s" by blast
  from b show "inbox (run dec [Settle p (Rejected e), Subscribe h ob, Microtask h p] s) (h, ob) =
              inbox s (h, ob) @ replay (streams s ! h) @ [Error e]"
    by blast
  have "connection (streams (run dec [Settle p (Rejected e), Subscribe h ob, Microtask h p] s) ! h) = None"
  proof -
    have "h < length (streams (subscribe h ob (settle p (Rejected e) s)))"
      using assms(1) by (simp add: subscribe_def settle_def Let_def split: option.splits)
    moreover have "run dec [Settle p (Rejected e), Subscribe h ob, Microtask h p] s =
        fail h e (subscribe h ob (settle p (Rejected e) s))"
      using assms c1 c2 c3
      by (simp add: microtask_def subscribe_def settle_def Let_def room_settled_def fetchRoom_result_def)
    ultimately show ?thesis by (simp add: fail_eq)
  qed
  with b show "torn_down s h e (run dec [Settle p (Rejected e), Subscribe h ob, Microtask h p] s)"
    unfolding torn_down_def by blast
qed

theorem rejected_fetch_tears_down_once_observed_witness:
  "connection (streams (run (\<lambda>x. x) [GetRoom ''room-1'', Subscribe 0 1, Subscribe 0 2] init) ! 0) = Some AwaitingRoom \<and>
   inbox (run (\<lambda>x. x) [Settle 0 (Rejected (SdkError ''not found'')), Microtask 0 0]
      (run (\<lambda>x. x) [GetRoom ''room-1'', Subscribe 0 1, Subscribe 0 2] init)) (0, 1) = [Error (SdkError ''not found'')] \<and>
   inbox (run (\<lambda>x. x) [Settle 0 (Rejected (SdkError ''not found'')), Microtask 0 0]
      (run (\<lambda>x. x) [GetRoom ''room-1'', Subscribe 0 1, Subscribe 0 2] init)) (0, 2) = [Error (SdkError ''not found'')] \<and>
   calls (run (\<lambda>x. x) [Settle 0 (Rejected (SdkError ''not found'')), Microtask 0 0]
      (run (\<lambda>x. x) [GetRoom ''room-1'', Subscribe 0 1, Subscribe 0 2] init)) =
     [StartListeningToRoomUpdates, RoomsListen, RoomsGet ''room-1'',
      StopListeningToRoomUpdates, RoomsStopListening] \<and>
   getRoomObservables (run (\<lambda>x. x) [Settle 0 (Rejected (SdkError ''not found'')), Microtask 0 0]
      (run (\<lambda>x. x) [GetRoom ''room-1'', Subscribe 0 1, Subscribe 0 2] init)) ''room-1'' = None \<and>
   connection (streams (run (\<lambda>x. x) [GetRoom ''room-1''] init) ! 0) = None \<and>
   calls (settle 0 (Rejected (SdkError ''not found'')) (run (\<lambda>x. x) [GetRoom ''room-1''] init)) =
     [StartListeningToRoomUpdates, RoomsListen, RoomsGet ''room-1''] \<and>
   inbox (run (\<lambda>x. x) [Settle 0 (Rejected (SdkError ''not found'')), Subscribe 0 1, Microtask 0 0]
      (run (\<lambda>x. x) [GetRoom ''room-1''] init)) (0, 1) = [Error (SdkError ''not found'')] \<and>
   calls (run (\<lambda>x. x) [Settle 0 (Rejected (SdkError ''not found'')), Subscribe 0 1, Microtask 0 0]
      (run (\<lambda>x. x) [GetRoom ''room-1''] init)) =
     [StartListeningToRoomUpdates, RoomsListen, RoomsGet ''room-1'',
      StopListeningToRoomUpdates, RoomsStopListening] \<and>
   getRoomObservables (run (\<lambda>x. x) [Settle 0 (Rejected (SdkError ''not found'')), Subscribe 0 1, Microtask 0 0]
      (run (\<lambda>x. x) [GetRoom ''room-1''] init)) ''room-1'' = None"
proof -
  define sa where "sa = run (\<lambda>x. x) [GetRoom ''room-1'', Subscribe 0 1, Subscribe 0 2] init"
  define sb where "sb = run (\<lambda>x. x) [GetRoom ''room-1''] init"
  have a: "0 < length (streams sa)" "room_promise (streams sa ! 0) = 0" "0 < length (promises sa)"
    "promises sa ! 0 = Pending" "connection (streams sa ! 0) = Some AwaitingRoom"
    "observers (streams sa ! 0) = [1, 2]" "inbox sa (0, 1) = []" "inbox sa (0, 2) = []"
    "calls sa = [StartListeningToRoomUpdates, RoomsListen, RoomsGet ''room-1'']"
    "listenerCount sa = 1" "room_id (streams sa ! 0) = ''room-1''"
    by (simp_all add: sa_def eval_defs)
  have b: "0 < length (streams sb)" "room_promise (streams sb ! 0) = 0" "0 < length (promises sb)"
    "promises sb ! 0 = Pending" "connection (streams sb ! 0) = None"
    "thrownError (streams sb ! 0) = None" "observers (streams sb ! 0) = []"
    "inbox sb (0, 1) = []" "replay (streams sb ! 0) = []"
    "calls sb = [StartListeningToRoomUpdates, RoomsListen, RoomsGet ''room-1'']"
    "listenerCount sb = 1" "room_id (streams sb ! 0) = ''room-1''"
    by (simp_all add: sb_def eval_defs)
  from rejected_fetch_tears_down_once_observed
         [OF a(1-4), of "\<lambda>x. x" "SdkError ''not found''" 0, THEN conjunct1] a
  have ra: "inbox (run (\<lambda>x. x) [Settle 0 (Rejected (SdkError ''not found'')), Microtask 0 0]
      sa) (0, 1) = [Error (SdkError ''not found'')] \<and>
   inbox (run (\<lambda>x. x) [Settle 0 (Rejected (SdkError ''not found'')), Microtask 0 0]
      sa) (0, 2) = [Error (SdkError ''not found'')] \<and>
   calls (run (\<lambda>x. x) [Settle 0 (Rejected (SdkError ''not found'')), Microtask 0 0]
      sa) =
     [StartListeningToRoomUpdates, RoomsListen, RoomsGet ''room-1'',
      StopListeningToRoomUpdates, RoomsStopListening] \<and>
   getRoomObservables (run (\<lambda>x. x) [Settle 0 (Rejected (SdkError ''not found'')), Microtask 0 0]
      sa) ''room-1'' = None"
    by (simp add: torn_down_def)
  from rejected_fetch_tears_down_once_observed
         [OF b(1-4), of "\<lambda>x. x" "SdkError ''not found''" 1, THEN conjunct2] b
  have rb: "calls (settle 0 (Rejected (SdkError ''not found'')) sb) =
     [StartListeningToRoomUpdates, RoomsListen, RoomsGet ''room-1''] \<and>
   inbox (run (\<lambda>x. x) [Settle 0 (Rejected (SdkError ''not found'')), Subscribe 0 1, Microtask 0 0]
      sb) (0, 1) = [Error (SdkError ''not found'')] \<and>
   calls (run (\<lambda>x. x) [Settle 0 (Rejected (SdkError ''not found'')), Subscribe 0 1, Microtask 0 0]
      sb) =
     [StartListeningToRoomUpdates, RoomsListen, RoomsGet ''room-1'',
      StopListeningToRoomUpdates, RoomsStopListening] \<and>
   getRoomObservables (run (\<lambda>x. x) [Settle 0 (Rejected (SdkError ''not found'')), Subscribe 0 1, Microtask 0 0]
      sb) ''room-1'' = None"
    by (simp add: torn_down_def)
  from a(5) b(5) ra rb
  have "connection (streams sa ! 0) = Some AwaitingRoom \<and>
   inbox (run (\<lambda>x. x) [Settle 0 (Rejected (SdkError ''not found'')), Microtask 0 0]
      sa) (0, 1) = [Error (SdkError ''not found'')] \<and>
   inbox (run (\<lambda>x. x) [Settle 0 (Rejected (SdkError ''not found'')), Microtask 0 0]
      sa) (0, 2) = [Error (SdkError ''not found'')] \<and>
   calls (run (\<lambda>x. x) [Settle 0 (Rejected (SdkError ''not found'')), Microtask 0 0]
      sa) =
     [StartListeningToRoomUpdates, RoomsListen, RoomsGet ''room-1'',
      StopListeningToRoomUpdates, RoomsStopListening] \<and>
   getRoomObservables (run (\<lambda>x. x) [Settle 0 (Rejected (SdkError ''not found'')), Microtask 0 0]
      sa) ''room-1'' = None \<and>
   connection (streams sb ! 0) = None \<and>
   calls (settle 0 (Rejected (SdkError ''not found'')) sb) =
     [StartListeningToRoomUpdates, RoomsListen, RoomsGet ''room-1''] \<and>
   inbox (run (\<lambda>x. x) [Settle 0 (Rejected (SdkError ''not found'')), Subscribe 0 1, Microtask 0 0]
      sb) (0, 1) = [Error (SdkError ''not found'')] \<and>
   calls (run (\<lambda>x. x) [Settle 0 (Rejected (SdkError ''not found'')), Subscribe 0 1, Microtask 0 0]
      sb) =
     [StartListeningToRoomUpdates, RoomsListen, RoomsGet ''room-1'',
      StopListeningToRoomUpdates, RoomsStopListening] \<and>
   getRoomObservables (run (\<lambda>x. x) [Settle 0 (Rejected (SdkError ''not found'')), Subscribe 0 1, Microtask 0 0]
      sb) ''room-1'' = None"
    by blast
  then show ?thesis by (simp only: sa_def sb_def)
qed

section \<open>Update events and the order of snapshots\<close>

lemma on_updated_idle:
  "\<not> listening (streams s ! h) \<Longrightarrow> on_updated ev h s = s"
  by (auto simp: on_updated_def listening_def split: option.splits phase.splits)

lemma on_updated_other:
  "h' \<noteq> h \<Longrightarrow>
   length (streams (on_updated ev h' s)) = length (streams s) \<and>
   streams (on_updated ev h' s) ! h = streams s ! h \<and>
   inbox (on_updated ev h' s) (h, ob) = inbox s (h, ob)"
  using on_updated_cases [of ev h' s]
  by (elim disjE conjE exE) (simp_all add: fail_eq)

lemma on_updated_calls:
  "room_id (streams s ! h') \<noteq> i \<Longrightarrow>
   count_list (calls (on_updated ev h' s)) (RoomsGet i) = count_list (calls s) (RoomsGet i)"
  using on_updated_cases [of ev h' s]
  by (elim disjE conjE exE) (simp_all add: fail_eq)

lemma on_updated_room_id:
  "h < length (streams s) \<Longrightarrow> room_id (streams (on_updated ev h' s) ! h) = room_id (streams s ! h)"
  using on_updated_cases [of ev h' s]
  by (elim disjE conjE exE) (simp_all add: fail_eq nth_list_update)

lemma on_updated_length [simp]: "length (streams (on_updated ev h' s)) = length (streams s)"
  using on_updated_cases [of ev h' s]
  by (elim disjE conjE exE) (simp_all add: fail_eq)

lemma fold_on_updated_pending:
  assumes "h < length (streams s)" and "\<not> listening (streams s ! h)"
  shows "streams (fold (on_updated ev) hs s) ! h = streams s ! h \<and>
         length (streams (fold (on_updated ev) hs s)) = length (streams s) \<and>
         inbox (fold (on_updated ev) hs s) (h, ob) = inbox s (h, ob)"
  using assms
proof (induction hs arbitrary: s)
  case Nil
  show ?case by simp
next
  case (Cons h' hs)
  show ?case
  proof (cases "h' = h")
    case True
    with Cons.prems have "on_updated ev h' s = s" by (simp add: on_updated_idle)
    with Cons.IH [OF Cons.prems] show ?thesis by simp
  next
    case False
    from on_updated_other [OF False, of ev s ob] Cons.prems
    have 1: "h < length (streams (on_updated ev h' s))"
      and 2: "\<not> listening (streams (on_updated ev h' s) ! h)"
      and 3: "streams (on_updated ev h' s) ! h = streams s ! h"
      and 4: "inbox (on_updated ev h' s) (h, ob) = inbox s (h, ob)"
      and 5: "length (streams (on_updated ev h' s)) = length (streams s)"
      by simp_all
    from Cons.IH [OF 1 2] 3 4 5 show ?thesis by simp
  qed
qed

lemma fold_on_updated_calls:
  assumes "\<forall>h' \<in> set hs. h' < length (streams s) \<and> room_id (streams s ! h') \<noteq> i"
  shows "count_list (calls (fold (on_updated ev) hs s)) (RoomsGet i) = count_list (calls s) (RoomsGet i)"
  using assms
proof (induction hs arbitrary: s)
  case Nil
  show ?case by simp
next
  case (Cons h' hs)
  have "\<forall>k \<in> set hs. k < length (streams (on_updated ev h' s)) \<and>
          room_id (streams (on_updated ev h' s) ! k) \<noteq> i"
    using Cons.prems by (simp add: on_updated_room_id)
  from Cons.IH [OF this] Cons.prems show ?case
    by (simp add: on_updated_calls)
qed

text \<open>
  Claim C10: while the connection of a stream still waits for its first fetch, an
  \<open>updated\<close> event does nothing to it, whatever the event carries: the stream has no
  handler that acts on it, so the stream and the notifications of its observers are
  unchanged, and when no other stream of the same room is listening, \<open>rooms.get\<close> is not
  called for the room. The event is lost.
\<close>

theorem update_during_pending_fetch_is_lost:
  assumes "h < length (streams s)"
    and "connection (streams s ! h) = Some AwaitingRoom"
    and "\<forall>h' \<in> set (listeners s). h' < length (streams s) \<and> room_id (streams s ! h') \<noteq> room_id (streams s ! h)"
  shows "on_updated ev h s = s \<and>
         streams (trigger_updated ev s) ! h = streams s ! h \<and>
         (\<forall>ob. inbox (trigger_updated ev s) (h, ob) = inbox s (h, ob)) \<and>
         count_list (calls (trigger_updated ev s)) (RoomsGet (room_id (streams s ! h))) =
           count_list (calls s) (RoomsGet (room_id (streams s ! h)))"
proof -
  from assms(2) have idle: "\<not> listening (streams s ! h)" by (simp add: listening_def)
  then have 1: "on_updated ev h s = s" by (rule on_updated_idle)
  from fold_on_updated_pending [OF assms(1) idle]
  have 2: "streams (trigger_updated ev s) ! h = streams s ! h"
    and 3: "\<forall>ob. inbox (trigger_updated ev s) (h, ob) = inbox s (h, ob)"
    by (simp_all add: trigger_updated_def)
  from fold_on_updated_calls [OF assms(3)]
  have 4: "count_list (calls (trigger_updated ev s)) (RoomsGet (room_id (streams s ! h))) =
           count_list (calls s) (RoomsGet (room_id (streams s ! h)))"
    by (simp add: trigger_updated_def)
  from 1 2 3 4 show ?thesis by blast
qed

theorem update_during_pending_fetch_is_lost_witness:
  "connection (streams (run (\<lambda>x. x)
      [GetRoom ''room-2'', Subscribe 0 1,
       Settle 0 (Fulfilled (Some \<lparr>sdk_id = ''room-2'', sdk_title = ''Retro'', sdk_type = ''group''\<rparr>)),
       Microtask 0 0, GetRoom ''room-1'', Subscribe 1 2] init) ! 1) = Some AwaitingRoom \<and>
   listeners (run (\<lambda>x. x)
      [GetRoom ''room-2'', Subscribe 0 1,
       Settle 0 (Fulfilled (Some \<lparr>sdk_id = ''room-2'', sdk_title = ''Retro'', sdk_type = ''group''\<rparr>)),
       Microtask 0 0, GetRoom ''room-1'', Subscribe 1 2] init) = [0] \<and>
   inbox (trigger_updated (Some \<lparr>data = Some \<lparr>data_id = Some ''room-1''\<rparr>\<rparr>)
     (run (\<lambda>x. x)
      [GetRoom ''room-2'', Subscribe 0 1,
       Settle 0 (Fulfilled (Some \<lparr>sdk_id = ''room-2'', sdk_title = ''Retro'', sdk_type = ''group''\<rparr>)),
       Microtask 0 0, GetRoom ''room-1'', Subscribe 1 2] init)) (1, 2) = [] \<and>
   count_list (calls (trigger_updated (Some \<lparr>data = Some \<lparr>data_id = Some ''room-1''\<rparr>\<rparr>)
     (run (\<lambda>x. x)
      [GetRoom ''room-2'', Subscribe 0 1,
       Settle 0 (Fulfilled (Some \<lparr>sdk_id = ''room-2'', sdk_title = ''Retro'', sdk_type = ''group''\<rparr>)),
       Microtask 0 0, GetRoom ''room-1'', Subscribe 1 2] init))) (RoomsGet ''room-1'') = 1"
proof -
  define s where "s = run (\<lambda>x. x)
      [GetRoom ''room-2'', Subscribe 0 1,
       Settle 0 (Fulfilled (Some \<lparr>sdk_id = ''room-2'', sdk_title = ''Retro'', sdk_type = ''group''\<rparr>)),
       Microtask 0 0, GetRoom ''room-1'', Subscribe 1 2] init"
  have 1: "1 < length (streams s)" by (simp add: s_def eval_defs)
  have 2: "connection (streams s ! 1) = Some AwaitingRoom" by (simp add: s_def eval_defs)
  have 3: "listeners s = [0]" by (simp add: s_def eval_defs)
  have 4: "room_id (streams s ! 0) = ''room-2''" "room_id (streams s ! 1) = ''room-1''"
    by (simp_all add: s_def eval_defs)
  have 5: "\<forall>h' \<in> set (listeners s). h' < length (streams s) \<and>
             room_id (streams s ! h') \<noteq> room_id (streams s ! 1)"
    using 1 4 by (auto simp: 3)
  have 6: "inbox s (1, 2) = []" by (simp add: s_def eval_defs)
  have 7: "count_list (calls s) (RoomsGet ''room-1'') = 1" by (simp add: s_def eval_defs)
  from update_during_pending_fetch_is_lost
         [OF 1 2 5, of "Some \<lparr>data = Some \<lparr>data_id = Some ''room-1''\<rparr>\<rparr>"] 2 3 4 6 7
  have "connection (streams s ! 1) = Some AwaitingRoom \<and> listeners s = [0] \<and>
        inbox (trigger_updated (Some \<lparr>data = Some \<lparr>data_id = Some ''room-1''\<rparr>\<rparr>) s) (1, 2) = [] \<and>
        count_list (calls (trigger_updated (Some \<lparr>data = Some \<lparr>data_id = Some ''room-1''\<rparr>\<rparr>) s))
          (RoomsGet ''room-1'') = 1"
    by simp
  then show ?thesis by (simp only: s_def)
qed

lemma deliver_grows: "\<exists>ns. deliver h obs n box k = box k @ ns"
  by (simp add: deliver_def)

lemma inbox_grows_fail: "h < length (streams s) \<Longrightarrow> \<exists>ns. inbox (fail h e s) k = inbox s k @ ns"
  by (simp add: fail_eq deliver_grows)

lemma inbox_grows_on_updated: "\<exists>ns. inbox (on_updated ev h s) k = inbox s k @ ns"
  using on_updated_cases [of ev h s]
  by (elim disjE conjE exE) (simp_all add: inbox_grows_fail)

lemma inbox_grows_fold: "\<exists>ns. inbox (fold (on_updated ev) hs s) k = inbox s k @ ns"
proof (induction hs arbitrary: s)
  case Nil
  show ?case by simp
next
  case (Cons h hs)
  from Cons.IH [of "on_updated ev h s"] inbox_grows_on_updated [of ev h s k]
  show ?case by auto
qed

lemma inbox_grows_microtask: "\<exists>ns. inbox (microtask h p s) k = inbox s k @ ns"
  using microtask_cases [of h p s]
  by (elim disjE conjE exE) (simp_all add: inbox_grows_fail deliver_grows)

lemma inbox_grows_subscribe: "\<exists>ns. inbox (subscribe h ob s) k = inbox s k @ ns"
  by (simp add: subscribe_def Let_def split: option.splits)

lemma inbox_unsubscribe [simp]: "inbox (unsubscribe h ob s) = inbox s"
  by (simp add: unsubscribe_def Let_def disconnect_eq)

lemma inbox_getRoom [simp]: "inbox (snd (getRoom i s)) = inbox s"
  by (cases "getRoomObservables s i") (simp_all add: getRoom_miss getRoom_hit)

lemma inbox_grows_step: "\<exists>ns. inbox (step dec e s) k = inbox s k @ ns"
proof (cases e)
  case (Subscribe h ob)
  then show ?thesis by (simp add: inbox_grows_subscribe)
next
  case (Microtask h p)
  then show ?thesis by (simp add: inbox_grows_microtask)
next
  case (RoomUpdated ev)
  then show ?thesis by (simp add: trigger_updated_def inbox_grows_fold)
next
  case (GetRoomActivities i)
  with same_rooms_getRoomActivities [of s i] show ?thesis by (simp add: same_rooms_def)
next
  case (Watch h ob)
  with same_rooms_watch [of s h ob] show ?thesis by (simp add: same_rooms_def)
next
  case (Unwatch h ob)
  with same_rooms_unwatch [of s h ob] show ?thesis by (simp add: same_rooms_def)
next
  case (ActivityEvent ev)
  then show ?thesis by (simp add: trigger_activity_def)
qed (simp_all add: settle_def)

lemma served_step: "served h ob p0 base s \<Longrightarrow> served h ob p0 base (step dec e s)"
proof -
  assume "served h ob p0 base s"
  then obtain n ns where a: "inbox s (h, ob) = base @ n # ns" and b: "initial_first p0 [n]"
    by (auto simp: served_def)
  from inbox_grows_step [of dec e s "(h, ob)"] obtain ms
    where "inbox (step dec e s) (h, ob) = inbox s (h, ob) @ ms" by blast
  with a have "inbox (step dec e s) (h, ob) = base @ n # (ns @ ms)" by simp
  with b show ?thesis unfolding served_def by blast
qed

lemma waiting_getRoom: "waiting h ob p0 base s \<Longrightarrow> waiting h ob p0 base (snd (getRoom i s))"
  by (cases "getRoomObservables s i")
     (simp_all add: getRoom_miss getRoom_hit waiting_def nth_append)

lemma waiting_subscribe: "waiting h ob p0 base s \<Longrightarrow> waiting h ob p0 base (subscribe k ob' s)"
  by (auto simp: waiting_def subscribe_def Let_def nth_list_update listening_def
           split: option.splits phase.splits)

lemma waiting_unsubscribe:
  "waiting h ob p0 base s \<Longrightarrow> (k, ob') \<noteq> (h, ob) \<Longrightarrow> waiting h ob p0 base (unsubscribe k ob' s)"
  by (auto simp: waiting_def unsubscribe_def Let_def disconnect_eq nth_list_update listening_def
                 removeAll_empty_iff
           split: option.splits phase.splits)

lemma waiting_settle: "waiting h ob p0 base s \<Longrightarrow> waiting h ob p0 base (settle p g s)"
  by (simp add: waiting_def settle_def)

lemma waiting_microtask:
  assumes "waiting h ob p0 base s"
  shows "waiting h ob p0 base (microtask k p s) \<or> served h ob p0 base (microtask k p s)"
proof (cases "k = h")
  case False
  from microtask_cases [of k p s] assms False
  have "waiting h ob p0 base (microtask k p s)"
    by (elim disjE conjE exE) (simp_all add: waiting_def fail_eq)
  then show ?thesis ..
next
  case True
  from assms have h: "h < length (streams s)" and rp: "room_promise (streams s ! h) = p0"
    and box: "inbox s (h, ob) = base" and nl: "\<not> listening (streams s ! h)"
    and mem: "ob \<in> set (observers (streams s ! h))"
    by (simp_all add: waiting_def)
  from microtask_cases [of h p s] show ?thesis
  proof (elim disjE conjE exE)
    assume "microtask h p s = s"
    with assms True show ?thesis by simp
  next
    fix e assume "microtask h p s = fail h e s"
    with h box mem True have "served h ob p0 base (microtask k p s)"
      by (simp add: served_def fail_eq deliver_same)
    then show ?thesis ..
  next
    fix r
    assume "p = room_promise (streams s ! h)"
      and "microtask h p s =
        s\<lparr>streams := (streams s)[h := (streams s ! h)\<lparr>buffer := Some (p, r), connection := Some (ListeningForUpdates [])\<rparr>],
          inbox := deliver h (observers (streams s ! h)) (Next p r) (inbox s),
          listeners := listeners s @ [h]\<rparr>"
    with h box mem True rp have "served h ob p0 base (microtask k p s)"
      by (simp add: served_def deliver_same)
    then show ?thesis ..
  next
    fix ps
    assume "connection (streams s ! h) = Some (ListeningForUpdates ps)"
    with nl show ?thesis by (simp add: listening_def)
  qed
qed

lemma waiting_trigger_updated:
  assumes "waiting h ob p0 base s"
  shows "waiting h ob p0 base (trigger_updated ev s)"
proof -
  from assms have h: "h < length (streams s)" and nl: "\<not> listening (streams s ! h)"
    by (simp_all add: waiting_def)
  from fold_on_updated_pending [OF h nl, of ev "listeners s" ob] assms
  show ?thesis by (simp add: waiting_def trigger_updated_def)
qed

lemma waiting_same_rooms: "same_rooms s t \<Longrightarrow> waiting h ob p0 base s \<Longrightarrow> waiting h ob p0 base t"
  by (simp add: same_rooms_def waiting_def)

lemma waiting_step:
  assumes "waiting h ob p0 base s" and "e \<noteq> Unsubscribe h ob"
  shows "waiting h ob p0 base (step dec e s) \<or> served h ob p0 base (step dec e s)"
proof (cases e)
  case (GetRoom i)
  with assms show ?thesis by (simp add: waiting_getRoom)
next
  case (Subscribe k ob')
  with assms show ?thesis by (simp add: waiting_subscribe)
next
  case (Unsubscribe k ob')
  with assms show ?thesis by (simp add: waiting_unsubscribe)
next
  case (Settle p g)
  with assms show ?thesis by (simp add: waiting_settle)
next
  case (Microtask k p)
  with assms waiting_microtask [of h ob p0 base s k p] show ?thesis by simp
next
  case (RoomUpdated ev)
  with assms show ?thesis by (simp add: waiting_trigger_updated)
next
  case (GetRoomActivities i)
  with assms waiting_same_rooms [OF same_rooms_getRoomActivities] show ?thesis by simp
next
  case (Watch k ob')
  with assms waiting_same_rooms [OF same_rooms_watch] show ?thesis by simp
next
  case (Unwatch k ob')
  with assms waiting_same_rooms [OF same_rooms_unwatch] show ?thesis by simp
next
  case (ActivityEvent ev)
  with assms waiting_same_rooms [OF same_rooms_trigger_activity] show ?thesis by simp
qed

lemma waiting_run:
  "waiting h ob p0 base s \<or> served h ob p0 base s \<Longrightarrow> Unsubscribe h ob \<notin> set es \<Longrightarrow>
   waiting h ob p0 base (run dec es s) \<or> served h ob p0 base (run dec es s)"
proof (induction es arbitrary: s)
  case Nil
  then show ?case by simp
next
  case (Cons e es)
  from Cons.prems have ne: "e \<noteq> Unsubscribe h ob" and rest: "Unsubscribe h ob \<notin> set es" by auto
  from Cons.prems(1) have "waiting h ob p0 base (step dec e s) \<or> served h ob p0 base (step dec e s)"
  proof
    assume "waiting h ob p0 base s"
    then show ?thesis using ne by (rule waiting_step)
  next
    assume "served h ob p0 base s"
    then have "served h ob p0 base (step dec e s)" by (rule served_step)
    then show ?thesis ..
  qed
  from Cons.IH [OF this rest] show ?case by simp
qed

lemma waiting_or_served_first:
  "waiting h ob p0 base s \<or> served h ob p0 base s \<Longrightarrow>
   initial_first p0 (drop (length base) (inbox s (h, ob)))"
  by (auto simp: waiting_def served_def elim: initial_first.elims)

text \<open>
  Claim C6, as stated: on every subscription to a room stream, the initial snapshot is
  observed before any snapshot derived from an update event. It does not hold for an
  observer that joins late: after an update has been fetched, the replay buffer holds the
  snapshot derived from it, and that is the first snapshot a new observer receives.
  Below, the first fetch of the stream is promise 0, and all that observer 2 has received
  is the room read from promise 1, the re-fetch that the update event started.
\<close>

theorem late_subscriber_sees_update_first:
  "room_promise (streams (run (\<lambda>x. x)
      [GetRoom ''room-1'', Subscribe 0 1,
       Settle 0 (Fulfilled (Some \<lparr>sdk_id = ''room-1'', sdk_title = ''Standup'', sdk_type = ''group''\<rparr>)),
       Microtask 0 0,
       RoomUpdated (Some \<lparr>data = Some \<lparr>data_id = Some ''room-1''\<rparr>\<rparr>),
       Settle 1 (Fulfilled (Some \<lparr>sdk_id = ''room-1'', sdk_title = ''Renamed'', sdk_type = ''group''\<rparr>)),
       Microtask 0 1, Subscribe 0 2] init) ! 0) = 0 \<and>
   inbox (run (\<lambda>x. x)
      [GetRoom ''room-1'', Subscribe 0 1,
       Settle 0 (Fulfilled (Some \<lparr>sdk_id = ''room-1'', sdk_title = ''Standup'', sdk_type = ''group''\<rparr>)),
       Microtask 0 0,
       RoomUpdated (Some \<lparr>data = Some \<lparr>data_id = Some ''room-1''\<rparr>\<rparr>),
       Settle 1 (Fulfilled (Some \<lparr>sdk_id = ''room-1'', sdk_title = ''Renamed'', sdk_type = ''group''\<rparr>)),
       Microtask 0 1, Subscribe 0 2] init) (0, 2) =
     [Next 1 \<lparr>ID = ''room-1'', title = ''Renamed'', type = ''group''\<rparr>] \<and>
   \<not> initial_first 0
      (inbox (run (\<lambda>x. x)
      [GetRoom ''room-1'', Subscribe 0 1,
       Settle 0 (Fulfilled (Some \<lparr>sdk_id = ''room-1'', sdk_title = ''Standup'', sdk_type = ''group''\<rparr>)),
       Microtask 0 0,
       RoomUpdated (Some \<lparr>data = Some \<lparr>data_id = Some ''room-1''\<rparr>\<rparr>),
       Settle 1 (Fulfilled (Some \<lparr>sdk_id = ''room-1'', sdk_title = ''Renamed'', sdk_type = ''group''\<rparr>)),
       Microtask 0 1, Subscribe 0 2] init) (0, 2))"
  by (simp add: eval_defs)

lemma early_subscriber_first:
  assumes "h < length (streams (run dec es0 init))"
    and "buffer (streams (run dec es0 init) ! h) = None"
    and "Unsubscribe h ob \<notin> set es"
  shows "initial_first (room_promise (streams (run dec es0 init) ! h))
           (drop (length (inbox (run dec es0 init) (h, ob)))
              (inbox (run dec es (subscribe h ob (run dec es0 init))) (h, ob)))"
proof -
  let ?s = "run dec es0 init"
  let ?p0 = "room_promise (streams ?s ! h)"
  let ?base = "inbox ?s (h, ob)"
  have "wf ?s" by (rule wf_run [OF wf_init])
  then have "streams_ok ?s" by (simp add: wf_def)
  from streams_okD [OF this assms(1)] assms(2)
  have nl: "\<not> listening (streams ?s ! h)" by (simp add: stream_ok_def)
  have "waiting h ob ?p0 ?base (subscribe h ob ?s) \<or> served h ob ?p0 ?base (subscribe h ob ?s)"
  proof (cases "ob \<in> set (observers (streams ?s ! h))")
    case True
    with assms(1,2) nl have "waiting h ob ?p0 ?base (subscribe h ob ?s)"
      by (simp add: subscribe_def waiting_def)
    then show ?thesis ..
  next
    case False
    show ?thesis
    proof (cases "thrownError (streams ?s ! h)")
      case None
      with False assms(1,2) nl have "waiting h ob ?p0 ?base (subscribe h ob ?s)"
        by (auto simp: subscribe_def waiting_def Let_def replay_def listening_def
                 split: option.splits phase.splits)
      then show ?thesis ..
    next
      case (Some e)
      with False assms(1,2) have "served h ob ?p0 ?base (subscribe h ob ?s)"
        by (simp add: subscribe_def served_def Let_def replay_def)
      then show ?thesis ..
    qed
  qed
  from waiting_run [OF this assms(3)] show ?thesis
    by (rule waiting_or_served_first)
qed

lemma inbox_grows_run: "\<exists>ns. inbox (run dec es s) k = inbox s k @ ns"
proof (induction es arbitrary: s)
  case Nil
  show ?case by simp
next
  case (Cons e es)
  from Cons.IH [of "step dec e s"] inbox_grows_step [of dec e s k]
  show ?case by auto
qed

lemma subscribe_replays:
  assumes "h < length (streams s)" and "ob \<notin> set (observers (streams s ! h))"
    and "buffer (streams s ! h) = Some (p, r)"
  shows "\<exists>ns. inbox (subscribe h ob s) (h, ob) = inbox s (h, ob) @ Next p r # ns"
  using assms by (simp add: subscribe_def Let_def replay_def split: option.splits)

text \<open>
  Claim C6, amended: in every state the adapter can reach, a subscription that begins
  while the replay buffer of the stream is empty, and is not unsubscribed, observes the
  initial snapshot before any snapshot derived from an update event: its first
  notification, if any, is the initial snapshot or the error that ends it. More
  generally, a new subscription that is not unsubscribed observes the initial snapshot
  first exactly when, at the moment it begins, the replay buffer holds no snapshot derived
  from an update event, that is, when it is empty or holds the initial snapshot.
\<close>

theorem initial_first_iff_no_update_buffered:
  assumes "h < length (streams (run dec es0 init))"
    and "Unsubscribe h ob \<notin> set es"
  shows "(buffer (streams (run dec es0 init) ! h) = None \<longrightarrow>
            initial_first (room_promise (streams (run dec es0 init) ! h))
              (drop (length (inbox (run dec es0 init) (h, ob)))
                 (inbox (run dec es (subscribe h ob (run dec es0 init))) (h, ob)))) \<and>
         (ob \<notin> set (observers (streams (run dec es0 init) ! h)) \<longrightarrow>
            initial_first (room_promise (streams (run dec es0 init) ! h))
              (drop (length (inbox (run dec es0 init) (h, ob)))
                 (inbox (run dec es (subscribe h ob (run dec es0 init))) (h, ob))) =
            no_update_buffered (streams (run dec es0 init) ! h))"
proof (intro conjI impI)
  assume "buffer (streams (run dec es0 init) ! h) = None"
  with assms show "initial_first (room_promise (streams (run dec es0 init) ! h))
              (drop (length (inbox (run dec es0 init) (h, ob)))
                 (inbox (run dec es (subscribe h ob (run dec es0 init))) (h, ob)))"
    by (simp add: early_subscriber_first)
next
  let ?s = "run dec es0 init"
  let ?new = "drop (length (inbox ?s (h, ob))) (inbox (run dec es (subscribe h ob ?s)) (h, ob))"
  assume fresh: "ob \<notin> set (observers (streams ?s ! h))"
  show "initial_first (room_promise (streams ?s ! h)) ?new = no_update_buffered (streams ?s ! h)"
  proof (cases "buffer (streams ?s ! h)")
    case None
    with assms have "initial_first (room_promise (streams ?s ! h)) ?new"
      by (simp add: early_subscriber_first)
    with None show ?thesis by (simp add: no_update_buffered_def)
  next
    case (Some v)
    obtain p r where v: "v = (p, r)" by (cases v)
    from subscribe_replays [OF assms(1) fresh Some [unfolded v]]
    obtain ns where a: "inbox (subscribe h ob ?s) (h, ob) = inbox ?s (h, ob) @ Next p r # ns" by blast
    from inbox_grows_run [of dec es "subscribe h ob ?s" "(h, ob)"]
    obtain ms where "inbox (run dec es (subscribe h ob ?s)) (h, ob) = inbox (subscribe h ob ?s) (h, ob) @ ms"
      by blast
    with a have "?new = Next p r # ns @ ms" by simp
    with Some v show ?thesis by (simp add: no_update_buffered_def)
  qed
qed

theorem initial_first_iff_no_update_buffered_witness:
  "buffer (streams (run (\<lambda>x. x) [GetRoom ''room-1''] init) ! 0) = None \<and>
   inbox (run (\<lambda>x. x)
     [Settle 0 (Fulfilled (Some \<lparr>sdk_id = ''room-1'', sdk_title = ''Standup'', sdk_type = ''group''\<rparr>)),
      Microtask 0 0, RoomUpdated (Some \<lparr>data = Some \<lparr>data_id = Some ''room-1''\<rparr>\<rparr>),
      Settle 1 (Fulfilled (Some \<lparr>sdk_id = ''room-1'', sdk_title = ''Renamed'', sdk_type = ''group''\<rparr>)),
      Microtask 0 1]
     (subscribe 0 1 (run (\<lambda>x. x) [GetRoom ''room-1''] init))) (0, 1) =
     [Next 0 \<lparr>ID = ''room-1'', title = ''Standup'', type = ''group''\<rparr>,
      Next 1 \<lparr>ID = ''room-1'', title = ''Renamed'', type = ''group''\<rparr>] \<and>
   initial_first (room_promise (streams (run (\<lambda>x. x) [GetRoom ''room-1''] init) ! 0))
     (drop (length (inbox (run (\<lambda>x. x) [GetRoom ''room-1''] init) (0, 1)))
       (inbox (run (\<lambda>x. x)
     [Settle 0 (Fulfilled (Some \<lparr>sdk_id = ''room-1'', sdk_title = ''Standup'', sdk_type = ''group''\<rparr>)),
      Microtask 0 0, RoomUpdated (Some \<lparr>data = Some \<lparr>data_id = Some ''room-1''\<rparr>\<rparr>),
      Settle 1 (Fulfilled (Some \<lparr>sdk_id = ''room-1'', sdk_title = ''Renamed'', sdk_type = ''group''\<rparr>)),
      Microtask 0 1]
     (subscribe 0 1 (run (\<lambda>x. x) [GetRoom ''room-1''] init))) (0, 1))) \<and>
   2 \<notin> set (observers (streams (run (\<lambda>x. x)
     [GetRoom ''room-1'', Subscribe 0 1,
      Settle 0 (Fulfilled (Some \<lparr>sdk_id = ''room-1'', sdk_title = ''Standup'', sdk_type = ''group''\<rparr>)),
      Microtask 0 0] init) ! 0)) \<and>
   no_update_buffered (streams (run (\<lambda>x. x)
     [GetRoom ''room-1'', Subscribe 0 1,
      Settle 0 (Fulfilled (Some \<lparr>sdk_id = ''room-1'', sdk_title = ''Standup'', sdk_type = ''group''\<rparr>)),
      Microtask 0 0] init) ! 0) \<and>
   inbox (run (\<lambda>x. x)
     [RoomUpdated (Some \<lparr>data = Some \<lparr>data_id = Some ''room-1''\<rparr>\<rparr>),
      Settle 1 (Fulfilled (Some \<lparr>sdk_id = ''room-1'', sdk_title = ''Renamed'', sdk_type = ''group''\<rparr>)),
      Microtask 0 1]
     (subscribe 0 2 (run (\<lambda>x. x)
     [GetRoom ''room-1'', Subscribe 0 1,
      Settle 0 (Fulfilled (Some \<lparr>sdk_id = ''room-1'', sdk_title = ''Standup'', sdk_type = ''group''\<rparr>)),
      Microtask 0 0] init))) (0, 2) =
     [Next 0 \<lparr>ID = ''room-1'', title = ''Standup'', type = ''group''\<rparr>,
      Next 1 \<lparr>ID = ''room-1'', title = ''Renamed'', type = ''group''\<rparr>] \<and>
   initial_first (room_promise (streams (run (\<lambda>x. x)
     [GetRoom ''room-1'', Subscribe 0 1,
      Settle 0 (Fulfilled (Some \<lparr>sdk_id = ''room-1'', sdk_title = ''Standup'', sdk_type = ''group''\<rparr>)),
      Microtask 0 0] init) ! 0))
     (drop (length (inbox (run (\<lambda>x. x)
     [GetRoom ''room-1'', Subscribe 0 1,
      Settle 0 (Fulfilled (Some \<lparr>sdk_id = ''room-1'', sdk_title = ''Standup'', sdk_type = ''group''\<rparr>)),
      Microtask 0 0] init) (0, 2)))
       (inbox (run (\<lambda>x. x)
     [RoomUpdated (Some \<lparr>data = Some \<lparr>data_id = Some ''room-1''\<rparr>\<rparr>),
      Settle 1 (Fulfilled (Some \<lparr>sdk_id = ''room-1'', sdk_title = ''Renamed'', sdk_type = ''group''\<rparr>)),
      Microtask 0 1]
     (subscribe 0 2 (run (\<lambda>x. x)
     [GetRoom ''room-1'', Subscribe 0 1,
      Settle 0 (Fulfilled (Some \<lparr>sdk_id = ''room-1'', sdk_title = ''Standup'', sdk_type = ''group''\<rparr>)),
      Microtask 0 0] init))) (0, 2)))"
proof -
  let ?pa = "[GetRoom ''room-1'']"
  let ?ra = "[Settle 0 (Fulfilled (Some \<lparr>sdk_id = ''room-1'', sdk_title = ''Standup'', sdk_type = ''group''\<rparr>)),
      Microtask 0 0, RoomUpdated (Some \<lparr>data = Some \<lparr>data_id = Some ''room-1''\<rparr>\<rparr>),
      Settle 1 (Fulfilled (Some \<lparr>sdk_id = ''room-1'', sdk_title = ''Renamed'', sdk_type = ''group''\<rparr>)),
      Microtask 0 1]"
  let ?pb = "[GetRoom ''room-1'', Subscribe 0 1,
      Settle 0 (Fulfilled (Some \<lparr>sdk_id = ''room-1'', sdk_title = ''Standup'', sdk_type = ''group''\<rparr>)),
      Microtask 0 0]"
  let ?rb = "[RoomUpdated (Some \<lparr>data = Some \<lparr>data_id = Some ''room-1''\<rparr>\<rparr>),
      Settle 1 (Fulfilled (Some \<lparr>sdk_id = ''room-1'', sdk_title = ''Renamed'', sdk_type = ''group''\<rparr>)),
      Microtask 0 1]"
  have a1: "0 < length (streams (run (\<lambda>x. x) ?pa init))" by (simp add: eval_defs)
  have a2: "Unsubscribe 0 1 \<notin> set ?ra" by simp
  have a3: "buffer (streams (run (\<lambda>x. x) ?pa init) ! 0) = None" by (simp add: eval_defs)
  have a4: "inbox (run (\<lambda>x. x) ?ra (subscribe 0 1 (run (\<lambda>x. x) ?pa init))) (0, 1) =
     [Next 0 \<lparr>ID = ''room-1'', title = ''Standup'', type = ''group''\<rparr>,
      Next 1 \<lparr>ID = ''room-1'', title = ''Renamed'', type = ''group''\<rparr>]"
    by (simp add: eval_defs)
  have b1: "0 < length (streams (run (\<lambda>x. x) ?pb init))" by (simp add: eval_defs)
  have b2: "Unsubscribe 0 2 \<notin> set ?rb" by simp
  have b3: "2 \<notin> set (observers (streams (run (\<lambda>x. x) ?pb init) ! 0))" by (simp add: eval_defs)
  have b4: "inbox (run (\<lambda>x. x) ?rb (subscribe 0 2 (run (\<lambda>x. x) ?pb init))) (0, 2) =
     [Next 0 \<lparr>ID = ''room-1'', title = ''Standup'', type = ''group''\<rparr>,
      Next 1 \<lparr>ID = ''room-1'', title = ''Renamed'', type = ''group''\<rparr>]"
    by (simp add: eval_defs)
  have b5: "no_update_buffered (streams (run (\<lambda>x. x) ?pb init) ! 0)"
    by (simp add: eval_defs no_update_buffered_def)
  from initial_first_iff_no_update_buffered [OF a1 a2, THEN conjunct1] a3
  have a5: "initial_first (room_promise (streams (run (\<lambda>x. x) ?pa init) ! 0))
     (drop (length (inbox (run (\<lambda>x. x) ?pa init) (0, 1)))
       (inbox (run (\<lambda>x. x) ?ra (subscribe 0 1 (run (\<lambda>x. x) ?pa init))) (0, 1)))"
    by blast
  from initial_first_iff_no_update_buffered [OF b1 b2, THEN conjunct2] b3 b5
  have b6: "initial_first (room_promise (streams (run (\<lambda>x. x) ?pb init) ! 0))
     (drop (length (inbox (run (\<lambda>x. x) ?pb init) (0, 2)))
       (inbox (run (\<lambda>x. x) ?rb (subscribe 0 2 (run (\<lambda>x. x) ?pb init))) (0, 2)))"
    by blast
  from a3 a4 a5 b3 b5 b4 b6 show ?thesis by blast
qed

section \<open>Live snapshots after a late subscription\<close>

lemma live_ok_same: "same_rooms s t \<Longrightarrow> live_ok s \<Longrightarrow> live_ok t"
  by (simp add: same_rooms_def live_ok_def)

lemma live_ok_getRoom: "cache_ok s \<Longrightarrow> live_ok s \<Longrightarrow> live_ok (snd (getRoom i s))"
  by (cases "getRoomObservables s i")
     (auto simp: getRoom_miss getRoom_hit live_ok_def cache_ok_def nth_append new_stream_def
        listening_def less_Suc_eq)

lemma live_ok_subscribe: "cache_ok s \<Longrightarrow> live_ok s \<Longrightarrow> live_ok (subscribe h ob s)"
proof (cases "h < length (streams s) \<and> ob \<notin> set (observers (streams s ! h))")
  case False
  assume "live_ok s"
  with False show ?thesis by (auto simp: subscribe_def)
next
  case True
  assume c: "cache_ok s" and l: "live_ok s"
  show ?thesis
  proof (cases "thrownError (streams s ! h)")
    case (Some e)
    with True l show ?thesis by (simp add: subscribe_def Let_def live_ok_def)
  next
    case None
    let ?st = "(streams s ! h)\<lparr>observers := observers (streams s ! h) @ [ob],
                 connection := (case connection (streams s ! h) of
                                  None \<Rightarrow> Some AwaitingRoom | Some c \<Rightarrow> Some c)\<rparr>"
    have sub: "subscribe h ob s =
        s\<lparr>streams := (streams s)[h := ?st],
          inbox := (inbox s)((h, ob) := inbox s (h, ob) @ replay (streams s ! h))\<rparr>"
      using True None by (simp add: subscribe_def Let_def)
    have keep: "listening ?st = listening (streams s ! h)"
      by (simp add: listening_def split: option.splits)
    have buf: "buffer ?st = buffer (streams s ! h)" by simp
    show ?thesis
      unfolding live_ok_def
    proof (intro conjI allI impI)
      fix i k
      assume "getRoomObservables (subscribe h ob s) i = Some k"
        and "buffer (streams (subscribe h ob s) ! k) \<noteq> None"
      with l keep buf True show "listening (streams (subscribe h ob s) ! k)"
        by (cases "k = h") (auto simp: sub live_ok_def)
    next
      fix k
      assume "k < length (streams (subscribe h ob s))"
        and "listening (streams (subscribe h ob s) ! k)"
      with l keep True show "k \<in> set (listeners (subscribe h ob s))"
        by (cases "k = h") (auto simp: sub live_ok_def)
    qed
  qed
qed

lemma live_ok_unsubscribe: "cache_ok s \<Longrightarrow> live_ok s \<Longrightarrow> live_ok (unsubscribe h ob s)"
  by (auto simp: live_ok_def cache_ok_def unsubscribe_def Let_def disconnect_eq nth_list_update
        listening_def
           split: option.splits phase.splits if_splits)

lemma live_ok_settle: "live_ok s \<Longrightarrow> live_ok (settle p g s)"
  by (simp add: live_ok_def settle_def)

lemma live_ok_fail: "cache_ok s \<Longrightarrow> live_ok s \<Longrightarrow> h < length (streams s) \<Longrightarrow> live_ok (fail h e s)"
  by (auto simp: live_ok_def cache_ok_def fail_eq nth_list_update listening_def
           split: option.splits phase.splits if_splits)

lemma live_ok_microtask: "cache_ok s \<Longrightarrow> live_ok s \<Longrightarrow> live_ok (microtask h p s)"
  using microtask_cases [of h p s]
  apply (elim disjE conjE exE)
     apply simp
    apply (simp add: live_ok_fail)
   apply (auto simp: live_ok_def cache_ok_def nth_list_update listening_def
           split: option.splits phase.splits if_splits)
  done

lemma live_ok_on_updated: "cache_ok s \<Longrightarrow> live_ok s \<Longrightarrow> live_ok (on_updated ev h s)"
  using on_updated_cases [of ev h s]
  apply (elim disjE conjE exE)
    apply simp
   apply (simp add: live_ok_fail)
  apply (auto simp: live_ok_def cache_ok_def nth_list_update listening_def
           split: option.splits phase.splits if_splits)
  done

lemma live_ok_trigger_updated:
  "cache_ok s \<Longrightarrow> live_ok s \<Longrightarrow> live_ok (trigger_updated ev s)"
proof -
  assume "cache_ok s" and "live_ok s"
  then have "cache_ok s \<and> live_ok s" by simp
  then have "cache_ok (fold (on_updated ev) (listeners s) s) \<and>
             live_ok (fold (on_updated ev) (listeners s) s)"
    by (rule fold_inv) (simp add: cache_ok_on_updated live_ok_on_updated)
  then show ?thesis by (simp add: trigger_updated_def)
qed

lemma live_ok_step: "wf s \<Longrightarrow> live_ok s \<Longrightarrow> live_ok (step dec e s)"
proof (cases e)
  case (GetRoomActivities i)
  assume "wf s" and "live_ok s"
  with GetRoomActivities live_ok_same [OF same_rooms_getRoomActivities] show ?thesis by simp
next
  case (Watch h ob)
  assume "wf s" and "live_ok s"
  with Watch live_ok_same [OF same_rooms_watch] show ?thesis by simp
next
  case (Unwatch h ob)
  assume "wf s" and "live_ok s"
  with Unwatch live_ok_same [OF same_rooms_unwatch] show ?thesis by simp
next
  case (ActivityEvent ev)
  assume "wf s" and "live_ok s"
  with ActivityEvent live_ok_same [OF same_rooms_trigger_activity] show ?thesis by simp
qed (simp_all add: wf_def live_ok_getRoom live_ok_subscribe live_ok_unsubscribe live_ok_settle
       live_ok_microtask live_ok_trigger_updated)

lemma live_ok_run: "wf s \<Longrightarrow> live_ok s \<Longrightarrow> live_ok (run dec es s)"
  by (induction es arbitrary: s) (simp_all add: wf_step live_ok_step)

lemma live_ok_init: "live_ok init"
  by (simp add: live_ok_def init_def)

lemma on_updated_promises:
  "promises (on_updated ev h' t) = promises t \<or> promises (on_updated ev h' t) = promises t @ [Pending]"
  using on_updated_cases [of ev h' t]
  by (elim disjE conjE exE) (simp_all add: fail_eq)

lemma on_updated_calls_mono:
  "count_list (calls t) c \<le> count_list (calls (on_updated ev h' t)) c"
  using on_updated_cases [of ev h' t]
  by (elim disjE conjE exE) (simp_all add: fail_eq)

lemma on_updated_match:
  assumes "h < length (streams t)"
    and "connection (streams t ! h) = Some (ListeningForUpdates ps)"
    and "room_id (streams t ! h) = i"
  shows "on_updated (Some \<lparr>data = Some \<lparr>data_id = Some i\<rparr>\<rparr>) h t =
           t\<lparr>calls := calls t @ [RoomsGet i],
             promises := promises t @ [Pending],
             streams := (streams t)[h := (streams t ! h)\<lparr>connection :=
                          Some (ListeningForUpdates (ps @ [length (promises t)]))\<rparr>]\<rparr>"
  using assms by (simp add: on_updated_def matches_def fetchRoom_def log_def Let_def)

lemma fold_on_updated_match:
  assumes "h < length (streams t)"
    and "connection (streams t ! h) = Some (ListeningForUpdates ps)"
    and "room_id (streams t ! h) = i"
  shows "length (streams (fold (on_updated (Some \<lparr>data = Some \<lparr>data_id = Some i\<rparr>\<rparr>)) hs t)) = length (streams t) \<and>
         observers (streams (fold (on_updated (Some \<lparr>data = Some \<lparr>data_id = Some i\<rparr>\<rparr>)) hs t) ! h) =
           observers (streams t ! h) \<and>
         (\<forall>ob. inbox (fold (on_updated (Some \<lparr>data = Some \<lparr>data_id = Some i\<rparr>\<rparr>)) hs t) (h, ob) = inbox t (h, ob)) \<and>
         length (promises t) \<le> length (promises (fold (on_updated (Some \<lparr>data = Some \<lparr>data_id = Some i\<rparr>\<rparr>)) hs t)) \<and>
         (\<forall>q < length (promises t).
            promises (fold (on_updated (Some \<lparr>data = Some \<lparr>data_id = Some i\<rparr>\<rparr>)) hs t) ! q = promises t ! q) \<and>
         (\<exists>qs. connection (streams (fold (on_updated (Some \<lparr>data = Some \<lparr>data_id = Some i\<rparr>\<rparr>)) hs t) ! h) =
                 Some (ListeningForUpdates (ps @ qs)) \<and>
               (h \<in> set hs \<longrightarrow> qs \<noteq> []) \<and>
               (\<forall>q \<in> set qs. length (promises t) \<le> q \<and>
                  q < length (promises (fold (on_updated (Some \<lparr>data = Some \<lparr>data_id = Some i\<rparr>\<rparr>)) hs t)) \<and>
                  promises (fold (on_updated (Some \<lparr>data = Some \<lparr>data_id = Some i\<rparr>\<rparr>)) hs t) ! q = Pending) \<and>
               count_list (calls t) (RoomsGet i) + length qs \<le>
                 count_list (calls (fold (on_updated (Some \<lparr>data = Some \<lparr>data_id = Some i\<rparr>\<rparr>)) hs t)) (RoomsGet i))"
  using assms
proof (induction hs arbitrary: t ps)
  case Nil
  then show ?case by simp
next
  case (Cons h' hs)
  let ?ev = "Some \<lparr>data = Some \<lparr>data_id = Some i\<rparr>\<rparr>"
  let ?t' = "on_updated ?ev h' t"
  let ?u = "fold (on_updated ?ev) hs ?t'"
  have fold: "fold (on_updated ?ev) (h' # hs) t = ?u" by simp
  show ?case
  proof (cases "h' = h")
    case True
    have t': "?t' = t\<lparr>calls := calls t @ [RoomsGet i],
             promises := promises t @ [Pending],
             streams := (streams t)[h := (streams t ! h)\<lparr>connection :=
                          Some (ListeningForUpdates (ps @ [length (promises t)]))\<rparr>]\<rparr>"
      using True on_updated_match [OF Cons.prems] by simp
    have 1: "h < length (streams ?t')" using Cons.prems(1) by (simp add: t')
    have 2: "connection (streams ?t' ! h) = Some (ListeningForUpdates (ps @ [length (promises t)]))"
      using Cons.prems(1) by (simp add: t')
    have 3: "room_id (streams ?t' ! h) = i" using Cons.prems(1,3) by (simp add: t')
    from Cons.IH [OF 1 2 3] obtain qs where
      a: "length (streams ?u) = length (streams ?t')"
      and b: "observers (streams ?u ! h) = observers (streams ?t' ! h)"
      and c: "\<forall>ob. inbox ?u (h, ob) = inbox ?t' (h, ob)"
      and d: "length (promises ?t') \<le> length (promises ?u)"
      and e: "\<forall>q < length (promises ?t'). promises ?u ! q = promises ?t' ! q"
      and f: "connection (streams ?u ! h) = Some (ListeningForUpdates ((ps @ [length (promises t)]) @ qs))"
      and g: "\<forall>q \<in> set qs. length (promises ?t') \<le> q \<and> q < length (promises ?u) \<and> promises ?u ! q = Pending"
      and k: "count_list (calls ?t') (RoomsGet i) + length qs \<le> count_list (calls ?u) (RoomsGet i)"
      by blast
    let ?qs = "length (promises t) # qs"
    have lt: "length (promises ?t') = Suc (length (promises t))" by (simp add: t')
    have a': "length (streams ?u) = length (streams t)" using a by (simp add: t')
    have b': "observers (streams ?u ! h) = observers (streams t ! h)"
      using b Cons.prems(1) by (simp add: t')
    have c': "\<forall>ob. inbox ?u (h, ob) = inbox t (h, ob)" using c by (simp add: t')
    have d': "length (promises t) \<le> length (promises ?u)" using d lt by simp
    have e': "\<forall>q < length (promises t). promises ?u ! q = promises t ! q"
      using e lt by (simp add: t' nth_append)
    have f': "connection (streams ?u ! h) = Some (ListeningForUpdates (ps @ ?qs))" using f by simp
    have q0: "promises ?u ! length (promises t) = Pending"
      using e lt by (simp add: t' nth_append)
    have g': "\<forall>q \<in> set ?qs. length (promises t) \<le> q \<and> q < length (promises ?u) \<and> promises ?u ! q = Pending"
      using g d lt q0 by auto
    have k': "count_list (calls t) (RoomsGet i) + length ?qs \<le> count_list (calls ?u) (RoomsGet i)"
      using k by (simp add: t')
    have ne: "h \<in> set (h' # hs) \<longrightarrow> ?qs \<noteq> []" by simp
    from a' b' c' d' e' f' g' k' ne show ?thesis unfolding fold by blast
  next
    case False
    from on_updated_other [OF False, of ?ev t] Cons.prems
    have 1: "h < length (streams ?t')"
      and 2: "connection (streams ?t' ! h) = Some (ListeningForUpdates ps)"
      and 3: "room_id (streams ?t' ! h) = i"
      and same: "streams ?t' ! h = streams t ! h" "length (streams ?t') = length (streams t)"
      by simp_all
    have box: "\<forall>ob. inbox ?t' (h, ob) = inbox t (h, ob)"
      using on_updated_other [OF False, of ?ev t] by simp
    from on_updated_promises [of ?ev h' t]
    have pl: "length (promises t) \<le> length (promises ?t')"
      and pp: "\<forall>q < length (promises t). promises ?t' ! q = promises t ! q"
      by (auto simp: nth_append)
    from Cons.IH [OF 1 2 3] obtain qs where
      a: "length (streams ?u) = length (streams ?t')"
      and b: "observers (streams ?u ! h) = observers (streams ?t' ! h)"
      and c: "\<forall>ob. inbox ?u (h, ob) = inbox ?t' (h, ob)"
      and d: "length (promises ?t') \<le> length (promises ?u)"
      and e: "\<forall>q < length (promises ?t'). promises ?u ! q = promises ?t' ! q"
      and f: "connection (streams ?u ! h) = Some (ListeningForUpdates (ps @ qs))"
      and n: "h \<in> set hs \<longrightarrow> qs \<noteq> []"
      and g: "\<forall>q \<in> set qs. length (promises ?t') \<le> q \<and> q < length (promises ?u) \<and> promises ?u ! q = Pending"
      and k: "count_list (calls ?t') (RoomsGet i) + length qs \<le> count_list (calls ?u) (RoomsGet i)"
      by blast
    have a': "length (streams ?u) = length (streams t)" using a same by simp
    have b': "observers (streams ?u ! h) = observers (streams t ! h)" using b same by simp
    have c': "\<forall>ob. inbox ?u (h, ob) = inbox t (h, ob)" using c box by simp
    have d': "length (promises t) \<le> length (promises ?u)" using d pl by simp
    have e': "\<forall>q < length (promises t). promises ?u ! q = promises t ! q"
      using e pp pl by auto
    have g': "\<forall>q \<in> set qs. length (promises t) \<le> q \<and> q < length (promises ?u) \<and> promises ?u ! q = Pending"
      using g pl by auto
    have k': "count_list (calls t) (RoomsGet i) + length qs \<le> count_list (calls ?u) (RoomsGet i)"
      using k on_updated_calls_mono [of t "RoomsGet i" ?ev h'] by simp
    have ne: "h \<in> set (h' # hs) \<longrightarrow> qs \<noteq> []" using n False by simp
    from a' b' c' d' e' f g' k' ne show ?thesis unfolding fold by blast
  qed
qed

lemma live_snapshot_reaches_late_subscriber:
  assumes "getRoomObservables (run dec es init) i = Some h"
    and "buffer (streams (run dec es init) ! h) = Some (p, r)"
    and "ob \<notin> set (observers (streams (run dec es init) ! h))"
  shows "\<exists>q. length (promises (subscribe h ob (run dec es init))) \<le> q \<and>
             q < length (promises (run dec [RoomUpdated (Some \<lparr>data = Some \<lparr>data_id = Some i\<rparr>\<rparr>)]
                                     (subscribe h ob (run dec es init)))) \<and>
             promises (run dec [RoomUpdated (Some \<lparr>data = Some \<lparr>data_id = Some i\<rparr>\<rparr>)]
                         (subscribe h ob (run dec es init))) ! q = Pending \<and>
             count_list (calls (subscribe h ob (run dec es init))) (RoomsGet i) <
               count_list (calls (run dec [RoomUpdated (Some \<lparr>data = Some \<lparr>data_id = Some i\<rparr>\<rparr>)]
                                    (subscribe h ob (run dec es init)))) (RoomsGet i) \<and>
             (\<forall>g. \<forall>ob' \<in> insert ob (set (observers (streams (run dec es init) ! h))).
                inbox (run dec [RoomUpdated (Some \<lparr>data = Some \<lparr>data_id = Some i\<rparr>\<rparr>),
                                Settle q (Fulfilled (Some g)), Microtask h q]
                         (subscribe h ob (run dec es init))) (h, ob') =
                inbox (subscribe h ob (run dec es init)) (h, ob') @
                  [Next q \<lparr>ID = sdk_id g, title = sdk_title g, type = sdk_type g\<rparr>])"
proof -
  define s where "s = run dec es init"
  define s1 where "s1 = subscribe h ob s"
  define ev where "ev = Some \<lparr>data = Some \<lparr>data_id = Some i\<rparr>\<rparr>"
  define s2 where "s2 = fold (on_updated ev) (listeners s1) s1"
  have wf: "wf s" unfolding s_def by (rule wf_run [OF wf_init])
  have live: "live_ok s" unfolding s_def by (rule live_ok_run [OF wf_init live_ok_init])
  from wf have co: "cache_ok s" by (simp add: wf_def)
  from co assms(1) have h: "h < length (streams s)" and rid: "room_id (streams s ! h) = i"
    and te: "thrownError (streams s ! h) = None"
    by (auto simp: cache_ok_def s_def)
  from live assms(1,2) have "listening (streams s ! h)" by (auto simp: live_ok_def s_def)
  then obtain ps where conn: "connection (streams s ! h) = Some (ListeningForUpdates ps)"
    by (auto simp: listening_def split: option.splits phase.splits)
  with live h have reg: "h \<in> set (listeners s)" by (auto simp: live_ok_def listening_def)
  have sub: "s1 =
      s\<lparr>streams := (streams s)[h := (streams s ! h)\<lparr>observers := observers (streams s ! h) @ [ob],
                   connection := Some (ListeningForUpdates ps)\<rparr>],
        inbox := (inbox s)((h, ob) := inbox s (h, ob) @ replay (streams s ! h))\<rparr>"
    using h te assms(3) conn by (simp add: s1_def subscribe_live s_def)
  have 1: "h < length (streams s1)" using h by (simp add: sub)
  have 2: "connection (streams s1 ! h) = Some (ListeningForUpdates ps)" using h by (simp add: sub)
  have 3: "room_id (streams s1 ! h) = i" using h rid by (simp add: sub)
  have obs1: "observers (streams s1 ! h) = observers (streams s ! h) @ [ob]" using h by (simp add: sub)
  have reg1: "h \<in> set (listeners s1)" using reg by (simp add: sub)
  from fold_on_updated_match [OF 1 2 3, of "listeners s1"] reg1 obtain qs where
    a: "length (streams s2) = length (streams s1)"
    and b: "observers (streams s2 ! h) = observers (streams s1 ! h)"
    and c: "\<forall>ob. inbox s2 (h, ob) = inbox s1 (h, ob)"
    and f: "connection (streams s2 ! h) = Some (ListeningForUpdates (ps @ qs))"
    and n: "qs \<noteq> []"
    and g: "\<forall>q \<in> set qs. length (promises s1) \<le> q \<and> q < length (promises s2) \<and> promises s2 ! q = Pending"
    and k: "count_list (calls s1) (RoomsGet i) + length qs \<le> count_list (calls s2) (RoomsGet i)"
    unfolding s2_def ev_def by blast
  from n obtain q where q: "q \<in> set qs" by (cases qs) auto
  with g have q1: "length (promises s1) \<le> q" and q2: "q < length (promises s2)"
    and q3: "promises s2 ! q = Pending" by auto
  from n k have q4: "count_list (calls s1) (RoomsGet i) < count_list (calls s2) (RoomsGet i)"
    by (cases qs) auto
  have deliver: "inbox (microtask h q (settle q (Fulfilled (Some g)) s2)) (h, ob') =
          inbox s1 (h, ob') @ [Next q \<lparr>ID = sdk_id g, title = sdk_title g, type = sdk_type g\<rparr>]"
    if "ob' \<in> insert ob (set (observers (streams s ! h)))" for g ob'
  proof -
    define s3 where "s3 = settle q (Fulfilled (Some g)) s2"
    have s3: "s3 = s2\<lparr>promises := (promises s2)[q := Fulfilled (Some g)]\<rparr>"
      using q2 q3 by (simp add: s3_def settle_def)
    have h3: "h < length (streams s3)" using a 1 by (simp add: s3)
    have res: "fetchRoom_result (promises s3 ! q) =
                 Fulfilled \<lparr>ID = sdk_id g, title = sdk_title g, type = sdk_type g\<rparr>"
      using q2 by (simp add: s3 fetchRoom_result_def)
    have "microtask h q s3 = refetch_settled h q (ps @ qs) s3"
      using h3 q2 f q by (simp add: microtask_def s3)
    also have "\<dots> = s3\<lparr>streams := (streams s3)[h := (streams s3 ! h)\<lparr>buffer :=
                          Some (q, \<lparr>ID = sdk_id g, title = sdk_title g, type = sdk_type g\<rparr>),
                          connection := Some (ListeningForUpdates (removeAll q (ps @ qs)))\<rparr>],
                      inbox := deliver h (observers (streams s3 ! h))
                                 (Next q \<lparr>ID = sdk_id g, title = sdk_title g, type = sdk_type g\<rparr>)
                                 (inbox s3)\<rparr>"
      using h3 res by (rule refetch_settled_fulfilled)
    finally have m: "inbox (microtask h q s3) (h, ob') =
        deliver h (observers (streams s3 ! h))
          (Next q \<lparr>ID = sdk_id g, title = sdk_title g, type = sdk_type g\<rparr>) (inbox s3) (h, ob')"
      by simp
    have "observers (streams s3 ! h) = observers (streams s ! h) @ [ob]"
      using b obs1 by (simp add: s3)
    moreover have "inbox s3 (h, ob') = inbox s1 (h, ob')" using c by (simp add: s3)
    ultimately show ?thesis using m that by (simp add: deliver_same s3_def)
  qed
  have r1: "run dec [RoomUpdated ev] s1 = s2"
    by (simp add: s2_def trigger_updated_def)
  have r2: "run dec [RoomUpdated ev, Settle q (Fulfilled (Some g)), Microtask h q] s1 =
            microtask h q (settle q (Fulfilled (Some g)) s2)" for g
    by (simp add: s2_def trigger_updated_def)
  from q1 q2 q3 q4 deliver
  have "length (promises s1) \<le> q \<and> q < length (promises (run dec [RoomUpdated ev] s1)) \<and>
        promises (run dec [RoomUpdated ev] s1) ! q = Pending \<and>
        count_list (calls s1) (RoomsGet i) < count_list (calls (run dec [RoomUpdated ev] s1)) (RoomsGet i) \<and>
        (\<forall>g. \<forall>ob' \<in> insert ob (set (observers (streams s ! h))).
           inbox (run dec [RoomUpdated ev, Settle q (Fulfilled (Some g)), Microtask h q] s1) (h, ob') =
           inbox s1 (h, ob') @ [Next q \<lparr>ID = sdk_id g, title = sdk_title g, type = sdk_type g\<rparr>])"
    unfolding r1 r2 by blast
  then show ?thesis unfolding s1_def s_def ev_def by blast
qed

lemma lockstep_same_rooms: "same_rooms s t \<Longrightarrow> lockstep h ob ob' b b' s \<Longrightarrow> lockstep h ob ob' b b' t"
  by (simp add: same_rooms_def lockstep_def)

lemma lockstep_fail: "lockstep h ob ob' b b' s \<Longrightarrow> k < length (streams s) \<Longrightarrow> lockstep h ob ob' b b' (fail k e s)"
  by (cases "k = h") (auto simp: lockstep_def fail_eq deliver_same)

lemma lockstep_getRoom: "lockstep h ob ob' b b' s \<Longrightarrow> lockstep h ob ob' b b' (snd (getRoom i s))"
  by (cases "getRoomObservables s i")
     (auto simp: getRoom_miss getRoom_hit lockstep_def nth_append)

lemma lockstep_subscribe:
  "lockstep h ob ob' b b' s \<Longrightarrow> (k, x) \<noteq> (h, ob) \<Longrightarrow> (k, x) \<noteq> (h, ob') \<Longrightarrow>
   lockstep h ob ob' b b' (subscribe k x s)"
  by (cases "k = h")
     (auto simp: lockstep_def subscribe_def Let_def nth_list_update split: option.splits)

lemma lockstep_unsubscribe:
  "lockstep h ob ob' b b' s \<Longrightarrow> (k, x) \<noteq> (h, ob) \<Longrightarrow> (k, x) \<noteq> (h, ob') \<Longrightarrow>
   lockstep h ob ob' b b' (unsubscribe k x s)"
  by (cases "k = h")
     (auto simp: lockstep_def unsubscribe_def Let_def disconnect_eq nth_list_update)

lemma lockstep_settle: "lockstep h ob ob' b b' s \<Longrightarrow> lockstep h ob ob' b b' (settle p g s)"
  by (simp add: lockstep_def settle_def)

lemma lockstep_microtask: "lockstep h ob ob' b b' s \<Longrightarrow> lockstep h ob ob' b b' (microtask k p s)"
  using microtask_cases [of k p s]
  apply (elim disjE conjE exE)
     apply simp
    apply (simp add: lockstep_fail)
   apply (cases "k = h"; auto simp: lockstep_def deliver_same nth_list_update)
  apply (cases "k = h"; auto simp: lockstep_def deliver_same nth_list_update)
  done

lemma lockstep_on_updated: "lockstep h ob ob' b b' s \<Longrightarrow> lockstep h ob ob' b b' (on_updated ev k s)"
  using on_updated_cases [of ev k s]
  apply (elim disjE conjE exE)
    apply simp
   apply (simp add: lockstep_fail)
  apply (cases "k = h"; auto simp: lockstep_def nth_list_update)
  done

lemma lockstep_trigger_updated:
  "lockstep h ob ob' b b' s \<Longrightarrow> lockstep h ob ob' b b' (trigger_updated ev s)"
  unfolding trigger_updated_def by (rule fold_inv) (simp_all add: lockstep_on_updated)

lemma lockstep_step:
  assumes "lockstep h ob ob' b b' s" and "\<not> touches h ob e" and "\<not> touches h ob' e"
  shows "lockstep h ob ob' b b' (step dec e s)"
proof (cases e)
  case (GetRoom i)
  with assms show ?thesis by (simp add: lockstep_getRoom)
next
  case (Subscribe k x)
  with assms show ?thesis by (auto intro: lockstep_subscribe)
next
  case (Unsubscribe k x)
  with assms show ?thesis by (auto intro: lockstep_unsubscribe)
next
  case (Settle p g)
  with assms show ?thesis by (simp add: lockstep_settle)
next
  case (Microtask k p)
  with assms show ?thesis by (simp add: lockstep_microtask)
next
  case (RoomUpdated ev)
  with assms show ?thesis by (simp add: lockstep_trigger_updated)
next
  case (GetRoomActivities i)
  with assms lockstep_same_rooms [OF same_rooms_getRoomActivities] show ?thesis by simp
next
  case (Watch k x)
  with assms lockstep_same_rooms [OF same_rooms_watch] show ?thesis by simp
next
  case (Unwatch k x)
  with assms lockstep_same_rooms [OF same_rooms_unwatch] show ?thesis by simp
next
  case (ActivityEvent ev)
  with assms lockstep_same_rooms [OF same_rooms_trigger_activity] show ?thesis by simp
qed

lemma lockstep_run:
  "lockstep h ob ob' b b' s \<Longrightarrow> list_all (\<lambda>e. \<not> touches h ob e \<and> \<not> touches h ob' e) es \<Longrightarrow>
   lockstep h ob ob' b b' (run dec es s)"
  by (induction es arbitrary: s) (simp_all add: lockstep_step)

lemma late_subscriber_in_lockstep:
  assumes "getRoomObservables (run dec es init) i = Some h"
    and "ob \<notin> set (observers (streams (run dec es init) ! h))"
    and "ob' \<in> set (observers (streams (run dec es init) ! h))"
    and "list_all (\<lambda>e. \<not> touches h ob e \<and> \<not> touches h ob' e) es'"
  shows "\<exists>ns. inbox (run dec es' (subscribe h ob (run dec es init))) (h, ob) =
                inbox (subscribe h ob (run dec es init)) (h, ob) @ ns \<and>
              inbox (run dec es' (subscribe h ob (run dec es init))) (h, ob') =
                inbox (subscribe h ob (run dec es init)) (h, ob') @ ns"
proof -
  let ?s = "run dec es init"
  let ?s1 = "subscribe h ob ?s"
  have "wf ?s" by (rule wf_run [OF wf_init])
  then have "cache_ok ?s" by (simp add: wf_def)
  with assms(1) have h: "h < length (streams ?s)" and live: "thrownError (streams ?s ! h) = None"
    by (auto simp: cache_ok_def)
  have "lockstep h ob ob' (inbox ?s1 (h, ob)) (inbox ?s1 (h, ob')) ?s1"
    using h live assms(2,3) by (simp add: lockstep_def subscribe_live)
  from lockstep_run [OF this assms(4), of dec] show ?thesis
    by (simp add: lockstep_def)
qed

text \<open>
  Claim C2: in every state the adapter can reach, when the cache holds a stream for a room
  and that stream has produced a snapshot, an observer that subscribes now receives at once
  the buffered snapshot, which is the last notification every current observer has
  received; subscribing calls nothing on the data source and starts no fetch. Live
  snapshots follow: whatever a later callback of a settled fetch sends to a current
  observer, it sends to the new observer as well; when an \<open>updated\<close> event for the room
  arrives, \<open>rooms.get\<close> is called for the room again, and once that fetch is fulfilled
  and its callback runs, the room it gave is the next notification of the new observer,
  right after the replayed one, as it is of every other observer; and through any later
  events, as long as neither the new observer nor a current one subscribes or
  unsubscribes, the two receive the same notifications.
\<close>

theorem late_subscriber_gets_latest_snapshot:
  assumes "getRoomObservables (run dec es init) i = Some h"
    and "buffer (streams (run dec es init) ! h) = Some (p, r)"
    and "ob \<notin> set (observers (streams (run dec es init) ! h))"
  shows "inbox (subscribe h ob (run dec es init)) (h, ob) = inbox (run dec es init) (h, ob) @ [Next p r] \<and>
         (\<forall>ob' \<in> set (observers (streams (run dec es init) ! h)).
            last (inbox (run dec es init) (h, ob')) = Next p r) \<and>
         calls (subscribe h ob (run dec es init)) = calls (run dec es init) \<and>
         promises (subscribe h ob (run dec es init)) = promises (run dec es init) \<and>
         (\<forall>q. \<forall>ob' \<in> set (observers (streams (run dec es init) ! h)).
            \<exists>ns. inbox (microtask h q (subscribe h ob (run dec es init))) (h, ob) =
                   inbox (subscribe h ob (run dec es init)) (h, ob) @ ns \<and>
                 inbox (microtask h q (subscribe h ob (run dec es init))) (h, ob') =
                   inbox (subscribe h ob (run dec es init)) (h, ob') @ ns) \<and>
         (\<exists>q. length (promises (subscribe h ob (run dec es init))) \<le> q \<and>
             q < length (promises (run dec [RoomUpdated (Some \<lparr>data = Some \<lparr>data_id = Some i\<rparr>\<rparr>)]
                                     (subscribe h ob (run dec es init)))) \<and>
             promises (run dec [RoomUpdated (Some \<lparr>data = Some \<lparr>data_id = Some i\<rparr>\<rparr>)]
                         (subscribe h ob (run dec es init))) ! q = Pending \<and>
             count_list (calls (subscribe h ob (run dec es init))) (RoomsGet i) <
               count_list (calls (run dec [RoomUpdated (Some \<lparr>data = Some \<lparr>data_id = Some i\<rparr>\<rparr>)]
                                    (subscribe h ob (run dec es init)))) (RoomsGet i) \<and>
             (\<forall>g. \<forall>ob' \<in> insert ob (set (observers (streams (run dec es init) ! h))).
                inbox (run dec [RoomUpdated (Some \<lparr>data = Some \<lparr>data_id = Some i\<rparr>\<rparr>),
                                Settle q (Fulfilled (Some g)), Microtask h q]
                         (subscribe h ob (run dec es init))) (h, ob') =
                inbox (subscribe h ob (run dec es init)) (h, ob') @
                  [Next q \<lparr>ID = sdk_id g, title = sdk_title g, type = sdk_type g\<rparr>])) \<and>
         (\<forall>ob' \<in> set (observers (streams (run dec es init) ! h)). \<forall>es'.
            list_all (\<lambda>e. \<not> touches h ob e \<and> \<not> touches h ob' e) es' \<longrightarrow>
            (\<exists>ns. inbox (run dec es' (subscribe h ob (run dec es init))) (h, ob) =
                    inbox (subscribe h ob (run dec es init)) (h, ob) @ ns \<and>
                  inbox (run dec es' (subscribe h ob (run dec es init))) (h, ob') =
                    inbox (subscribe h ob (run dec es init)) (h, ob') @ ns))"
  using late_subscriber_replay [OF assms] live_snapshot_reaches_late_subscriber [OF assms]
    late_subscriber_in_lockstep [OF assms(1,3)]
  by blast

theorem late_subscriber_gets_latest_snapshot_witness:
  "getRoomObservables (run (\<lambda>x. x)
       [GetRoom ''room-1'', Subscribe 0 1,
        Settle 0 (Fulfilled (Some \<lparr>sdk_id = ''room-1'', sdk_title = ''Standup'', sdk_type = ''group''\<rparr>)),
        Microtask 0 0] init) ''room-1'' = Some 0 \<and>
   buffer (streams (run (\<lambda>x. x)
       [GetRoom ''room-1'', Subscribe 0 1,
        Settle 0 (Fulfilled (Some \<lparr>sdk_id = ''room-1'', sdk_title = ''Standup'', sdk_type = ''group''\<rparr>)),
        Microtask 0 0] init) ! 0) =
     Some (0, \<lparr>ID = ''room-1'', title = ''Standup'', type = ''group''\<rparr>) \<and>
   2 \<notin> set (observers (streams (run (\<lambda>x. x)
       [GetRoom ''room-1'', Subscribe 0 1,
        Settle 0 (Fulfilled (Some \<lparr>sdk_id = ''room-1'', sdk_title = ''Standup'', sdk_type = ''group''\<rparr>)),
        Microtask 0 0] init) ! 0)) \<and>
   inbox (subscribe 0 2 (run (\<lambda>x. x)
       [GetRoom ''room-1'', Subscribe 0 1,
        Settle 0 (Fulfilled (Some \<lparr>sdk_id = ''room-1'', sdk_title = ''Standup'', sdk_type = ''group''\<rparr>)),
        Microtask 0 0] init)) (0, 2) =
     [Next 0 \<lparr>ID = ''room-1'', title = ''Standup'', type = ''group''\<rparr>] \<and>
   calls (subscribe 0 2 (run (\<lambda>x. x)
       [GetRoom ''room-1'', Subscribe 0 1,
        Settle 0 (Fulfilled (Some \<lparr>sdk_id = ''room-1'', sdk_title = ''Standup'', sdk_type = ''group''\<rparr>)),
        Microtask 0 0] init)) =
     [StartListeningToRoomUpdates, RoomsListen, RoomsGet ''room-1''] \<and>
   calls (run (\<lambda>x. x) [RoomUpdated (Some \<lparr>data = Some \<lparr>data_id = Some ''room-1''\<rparr>\<rparr>)]
      (subscribe 0 2 (run (\<lambda>x. x)
       [GetRoom ''room-1'', Subscribe 0 1,
        Settle 0 (Fulfilled (Some \<lparr>sdk_id = ''room-1'', sdk_title = ''Standup'', sdk_type = ''group''\<rparr>)),
        Microtask 0 0] init))) =
     [StartListeningToRoomUpdates, RoomsListen, RoomsGet ''room-1'', RoomsGet ''room-1''] \<and>
   inbox (run (\<lambda>x. x)
       [RoomUpdated (Some \<lparr>data = Some \<lparr>data_id = Some ''room-1''\<rparr>\<rparr>),
        Settle 1 (Fulfilled (Some \<lparr>sdk_id = ''room-1'', sdk_title = ''Renamed'', sdk_type = ''group''\<rparr>)),
        Microtask 0 1]
      (subscribe 0 2 (run (\<lambda>x. x)
       [GetRoom ''room-1'', Subscribe 0 1,
        Settle 0 (Fulfilled (Some \<lparr>sdk_id = ''room-1'', sdk_title = ''Standup'', sdk_type = ''group''\<rparr>)),
        Microtask 0 0] init))) (0, 2) =
     [Next 0 \<lparr>ID = ''room-1'', title = ''Standup'', type = ''group''\<rparr>,
      Next 1 \<lparr>ID = ''room-1'', title = ''Renamed'', type = ''group''\<rparr>] \<and>
   inbox (run (\<lambda>x. x)
       [RoomUpdated (Some \<lparr>data = Some \<lparr>data_id = Some ''room-1''\<rparr>\<rparr>),
        Settle 1 (Fulfilled (Some \<lparr>sdk_id = ''room-1'', sdk_title = ''Renamed'', sdk_type = ''group''\<rparr>)),
        Microtask 0 1]
      (subscribe 0 2 (run (\<lambda>x. x)
       [GetRoom ''room-1'', Subscribe 0 1,
        Settle 0 (Fulfilled (Some \<lparr>sdk_id = ''room-1'', sdk_title = ''Standup'', sdk_type = ''group''\<rparr>)),
        Microtask 0 0] init))) (0, 1) =
     [Next 0 \<lparr>ID = ''room-1'', title = ''Standup'', type = ''group''\<rparr>,
      Next 1 \<lparr>ID = ''room-1'', title = ''Renamed'', type = ''group''\<rparr>]"
proof -
  let ?es = "[GetRoom ''room-1'', Subscribe 0 1,
        Settle 0 (Fulfilled (Some \<lparr>sdk_id = ''room-1'', sdk_title = ''Standup'', sdk_type = ''group''\<rparr>)),
        Microtask 0 0]"
  let ?s = "run (\<lambda>x. x) ?es init"
  have 1: "getRoomObservables ?s ''room-1'' = Some 0" by (simp add: eval_defs)
  have 2: "buffer (streams ?s ! 0) = Some (0, \<lparr>ID = ''room-1'', title = ''Standup'', type = ''group''\<rparr>)"
    by (simp add: eval_defs)
  have 3: "2 \<notin> set (observers (streams ?s ! 0))" by (simp add: eval_defs)
  have 4: "inbox ?s (0, 2) = []" by (simp add: eval_defs)
  have 5: "calls ?s = [StartListeningToRoomUpdates, RoomsListen, RoomsGet ''room-1'']"
    by (simp add: eval_defs)
  from late_subscriber_gets_latest_snapshot [OF 1 2 3]
  have "inbox (subscribe 0 2 ?s) (0, 2) = inbox ?s (0, 2) @
          [Next 0 \<lparr>ID = ''room-1'', title = ''Standup'', type = ''group''\<rparr>] \<and>
        calls (subscribe 0 2 ?s) = calls ?s"
    by blast
  then have 6: "inbox (subscribe 0 2 ?s) (0, 2) =
          [Next 0 \<lparr>ID = ''room-1'', title = ''Standup'', type = ''group''\<rparr>] \<and>
        calls (subscribe 0 2 ?s) = [StartListeningToRoomUpdates, RoomsListen, RoomsGet ''room-1'']"
    unfolding 4 5 by simp
  have 7: "calls (run (\<lambda>x. x) [RoomUpdated (Some \<lparr>data = Some \<lparr>data_id = Some ''room-1''\<rparr>\<rparr>)]
      (subscribe 0 2 ?s)) =
     [StartListeningToRoomUpdates, RoomsListen, RoomsGet ''room-1'', RoomsGet ''room-1'']"
    by (simp add: eval_defs)
  define s1 where "s1 = subscribe 0 2 ?s"
  have p1: "length (promises s1) = 1" by (simp add: s1_def eval_defs)
  have p2: "length (promises (run (\<lambda>x. x)
      [RoomUpdated (Some \<lparr>data = Some \<lparr>data_id = Some ''room-1''\<rparr>\<rparr>)] s1)) = 2"
    by (simp add: s1_def eval_defs)
  have o1: "observers (streams ?s ! 0) = [1]" by (simp add: eval_defs)
  have b1: "inbox s1 (0, 1) = [Next 0 \<lparr>ID = ''room-1'', title = ''Standup'', type = ''group''\<rparr>]"
    by (simp add: s1_def eval_defs)
  have b2: "inbox s1 (0, 2) = [Next 0 \<lparr>ID = ''room-1'', title = ''Standup'', type = ''group''\<rparr>]"
    by (simp add: s1_def eval_defs)
  from late_subscriber_gets_latest_snapshot [OF 1 2 3, folded s1_def]
  obtain q where q1: "length (promises s1) \<le> q"
    and q2: "q < length (promises (run (\<lambda>x. x)
      [RoomUpdated (Some \<lparr>data = Some \<lparr>data_id = Some ''room-1''\<rparr>\<rparr>)] s1))"
    and d: "\<forall>g. \<forall>ob' \<in> insert 2 (set (observers (streams ?s ! 0))).
                inbox (run (\<lambda>x. x) [RoomUpdated (Some \<lparr>data = Some \<lparr>data_id = Some ''room-1''\<rparr>\<rparr>),
                                Settle q (Fulfilled (Some g)), Microtask 0 q] s1) (0, ob') =
                inbox s1 (0, ob') @ [Next q \<lparr>ID = sdk_id g, title = sdk_title g, type = sdk_type g\<rparr>]"
    by blast
  from q1 q2 have q: "q = 1" unfolding p1 p2 by simp
  from d [rule_format, of 2 "\<lparr>sdk_id = ''room-1'', sdk_title = ''Renamed'', sdk_type = ''group''\<rparr>"]
  have "inbox (run (\<lambda>x. x)
       [RoomUpdated (Some \<lparr>data = Some \<lparr>data_id = Some ''room-1''\<rparr>\<rparr>),
        Settle 1 (Fulfilled (Some \<lparr>sdk_id = ''room-1'', sdk_title = ''Renamed'', sdk_type = ''group''\<rparr>)),
        Microtask 0 1] s1) (0, 2) =
     [Next 0 \<lparr>ID = ''room-1'', title = ''Standup'', type = ''group''\<rparr>,
      Next 1 \<lparr>ID = ''room-1'', title = ''Renamed'', type = ''group''\<rparr>]"
    unfolding q b2 by simp
  then have 8: "inbox (run (\<lambda>x. x)
       [RoomUpdated (Some \<lparr>data = Some \<lparr>data_id = Some ''room-1''\<rparr>\<rparr>),
        Settle 1 (Fulfilled (Some \<lparr>sdk_id = ''room-1'', sdk_title = ''Renamed'', sdk_type = ''group''\<rparr>)),
        Microtask 0 1]
      (subscribe 0 2 ?s)) (0, 2) =
     [Next 0 \<lparr>ID = ''room-1'', title = ''Standup'', type = ''group''\<rparr>,
      Next 1 \<lparr>ID = ''room-1'', title = ''Renamed'', type = ''group''\<rparr>]"
    by (simp only: s1_def)
  from d [rule_format, of 1 "\<lparr>sdk_id = ''room-1'', sdk_title = ''Renamed'', sdk_type = ''group''\<rparr>"]
  have "inbox (run (\<lambda>x. x)
       [RoomUpdated (Some \<lparr>data = Some \<lparr>data_id = Some ''room-1''\<rparr>\<rparr>),
        Settle 1 (Fulfilled (Some \<lparr>sdk_id = ''room-1'', sdk_title = ''Renamed'', sdk_type = ''group''\<rparr>)),
        Microtask 0 1] s1) (0, 1) =
     [Next 0 \<lparr>ID = ''room-1'', title = ''Standup'', type = ''group''\<rparr>,
      Next 1 \<lparr>ID = ''room-1'', title = ''Renamed'', type = ''group''\<rparr>]"
    unfolding q b1 o1 by simp
  then have 9: "inbox (run (\<lambda>x. x)
       [RoomUpdated (Some \<lparr>data = Some \<lparr>data_id = Some ''room-1''\<rparr>\<rparr>),
        Settle 1 (Fulfilled (Some \<lparr>sdk_id = ''room-1'', sdk_title = ''Renamed'', sdk_type = ''group''\<rparr>)),
        Microtask 0 1]
      (subscribe 0 2 ?s)) (0, 1) =
     [Next 0 \<lparr>ID = ''room-1'', title = ''Standup'', type = ''group''\<rparr>,
      Next 1 \<lparr>ID = ''room-1'', title = ''Renamed'', type = ''group''\<rparr>]"
    by (simp only: s1_def)
  from 1 2 3 6 7 8 9 show ?thesis by blast
qed

section \<open>Properties of the room activities\<close>

lemma cache_kept_step:
  "getRoomActivitiesCache s i = Some h \<Longrightarrow> getRoomActivitiesCache (step dec e s) i = Some h"
proof (cases e)
  case (GetRoomActivities j)
  assume c: "getRoomActivitiesCache s i = Some h"
  show ?thesis
  proof (cases "getRoomActivitiesCache s j")
    case None
    with c have "j \<noteq> i" by auto
    with None c GetRoomActivities show ?thesis by (simp add: getRoomActivities_miss)
  next
    case (Some k)
    with c GetRoomActivities show ?thesis by (simp add: getRoomActivities_hit)
  qed
next
  case (GetRoom j)
  assume "getRoomActivitiesCache s i = Some h"
  with GetRoom same_activities_getRoom [of s j] show ?thesis by (simp add: same_activities_def)
next
  case (Subscribe k ob)
  assume "getRoomActivitiesCache s i = Some h"
  with Subscribe same_activities_subscribe [of s k ob] show ?thesis by (simp add: same_activities_def)
next
  case (Unsubscribe k ob)
  assume "getRoomActivitiesCache s i = Some h"
  with Unsubscribe same_activities_unsubscribe [of s k ob] show ?thesis by (simp add: same_activities_def)
next
  case (Settle p g)
  assume "getRoomActivitiesCache s i = Some h"
  with Settle same_activities_settle [of s p g] show ?thesis by (simp add: same_activities_def)
next
  case (Microtask k p)
  assume "getRoomActivitiesCache s i = Some h"
  with Microtask same_activities_microtask [of s k p] show ?thesis by (simp add: same_activities_def)
next
  case (RoomUpdated ev)
  assume "getRoomActivitiesCache s i = Some h"
  with RoomUpdated same_activities_trigger_updated [of s ev] show ?thesis by (simp add: same_activities_def)
next
  case (Watch k ob)
  assume "getRoomActivitiesCache s i = Some h"
  with Watch show ?thesis by (simp add: watch_def Let_def)
next
  case (Unwatch k ob)
  assume "getRoomActivitiesCache s i = Some h"
  with Unwatch show ?thesis by (simp add: unwatch_def Let_def)
next
  case (ActivityEvent ev)
  assume "getRoomActivitiesCache s i = Some h"
  with ActivityEvent show ?thesis by (simp add: trigger_activity_def)
qed

lemma cache_kept_run:
  "getRoomActivitiesCache s i = Some h \<Longrightarrow> getRoomActivitiesCache (run dec es s) i = Some h"
  by (induction es arbitrary: s) (simp_all add: cache_kept_step)

lemma getRoomActivities_cached:
  "getRoomActivitiesCache (snd (getRoomActivities i s)) i = Some (fst (getRoomActivities i s))"
  by (cases "getRoomActivitiesCache s i") (simp_all add: getRoomActivities_miss getRoomActivities_hit)

lemma dispatch_silent:
  assumes "\<forall>(j, k) \<in> set hs. k = h \<longrightarrow> (\<forall>a. on_activity dec j ev \<noteq> Inr (Some a))"
  shows "subjects (dispatch dec ev hs s) ! h = subjects s ! h \<and>
         activity_inbox (dispatch dec ev hs s) (h, ob) = activity_inbox s (h, ob)"
  using assms
proof (induction dec ev hs s rule: dispatch.induct)
  case (1 dec ev s)
  show ?case by simp
next
  case (2 dec ev j k hs s)
  show ?case
  proof (cases "on_activity dec j ev")
    case (Inl e)
    then show ?thesis by simp
  next
    case (Inr v)
    show ?thesis
    proof (cases v)
      case None
      with Inr 2 show ?thesis by simp
    next
      case (Some a)
      with Inr 2(3) have kh: "k \<noteq> h" by auto
      from 2(2) [OF Inr Some] 2(3)
      have "subjects (dispatch dec ev hs (next_activity k a s)) ! h = subjects (next_activity k a s) ! h \<and>
            activity_inbox (dispatch dec ev hs (next_activity k a s)) (h, ob) =
              activity_inbox (next_activity k a s) (h, ob)"
        by simp
      with kh Inr Some show ?thesis
        by (simp add: next_activity_eq)
    qed
  qed
qed

lemma on_activity_other_target:
  "target a = Some t \<Longrightarrow> target_id t \<noteq> Some (dec i) \<Longrightarrow> on_activity dec i (Some a) = Inr None"
  by (simp add: on_activity_def)

text \<open>
  Claim C9: \<open>getRoomActivities(i)\<close> called again returns the same subject and changes
  nothing, also after any events in between; and in every state the adapter can reach, an
  activity event whose \<open>target.id\<close> is not the decoded key of room \<open>i\<close> sends nothing to
  the subject cached for \<open>i\<close>: its value and the notifications of its observers are
  unchanged.
\<close>

theorem activity_stream_cached_and_filtered:
  "getRoomActivities i (snd (getRoomActivities i s)) =
     (fst (getRoomActivities i s), snd (getRoomActivities i s)) \<and>
   getRoomActivities i (run dec es (snd (getRoomActivities i s))) =
     (fst (getRoomActivities i s), run dec es (snd (getRoomActivities i s))) \<and>
   (getRoomActivitiesCache (run dec es init) i = Some h \<longrightarrow>
    target a = Some t \<longrightarrow> target_id t \<noteq> Some (dec i) \<longrightarrow>
      subjects (trigger_activity dec (Some a) (run dec es init)) ! h = subjects (run dec es init) ! h \<and>
      (\<forall>ob. activity_inbox (trigger_activity dec (Some a) (run dec es init)) (h, ob) =
              activity_inbox (run dec es init) (h, ob)))"
proof (intro conjI impI)
  show "getRoomActivities i (snd (getRoomActivities i s)) =
     (fst (getRoomActivities i s), snd (getRoomActivities i s))"
    using getRoomActivities_cached [of i s] by (simp add: getRoomActivities_hit)
  show "getRoomActivities i (run dec es (snd (getRoomActivities i s))) =
     (fst (getRoomActivities i s), run dec es (snd (getRoomActivities i s)))"
    using cache_kept_run [OF getRoomActivities_cached, of dec es i s]
    by (simp add: getRoomActivities_hit)
next
  let ?s = "run dec es init"
  assume c: "getRoomActivitiesCache ?s i = Some h"
    and t: "target a = Some t" and m: "target_id t \<noteq> Some (dec i)"
  have "wf ?s" by (rule wf_run [OF wf_init])
  then have ok: "activity_ok ?s" by (simp add: wf_def)
  have quiet: "\<forall>(j, k) \<in> set (handlers ?s). k = h \<longrightarrow> (\<forall>b. on_activity dec j (Some a) \<noteq> Inr (Some b))"
  proof (clarify)
    fix j b
    assume "(j, h) \<in> set (handlers ?s)" and e: "on_activity dec j (Some a) = Inr (Some b)"
    with ok c have "i = j" by (auto simp: activity_ok_def)
    with e on_activity_other_target [of a t dec i] t m show False by simp
  qed
  from dispatch_silent [OF quiet]
  show "subjects (trigger_activity dec (Some a) ?s) ! h = subjects ?s ! h"
    and "\<forall>ob. activity_inbox (trigger_activity dec (Some a) ?s) (h, ob) = activity_inbox ?s (h, ob)"
    by (simp_all add: trigger_activity_def)
qed

theorem activity_stream_cached_and_filtered_witness:
  "getRoomActivitiesCache (run (\<lambda>x. x) [GetRoomActivities ''room-1'', Watch 0 1, GetRoomActivities ''room-2'', Watch 1 2] init) ''room-1'' = Some 0 \<and>
   getRoomActivities ''room-1'' (run (\<lambda>x. x) [GetRoomActivities ''room-1'', Watch 0 1, GetRoomActivities ''room-2'', Watch 1 2] init) =
     (0, run (\<lambda>x. x) [GetRoomActivities ''room-1'', Watch 0 1, GetRoomActivities ''room-2'', Watch 1 2] init) \<and>
   activity_inbox (trigger_activity (\<lambda>x. x) (Some \<lparr>activity_id = Some ''a1'', target = Some \<lparr>target_id = Some ''room-2''\<rparr>,
        object = Some \<lparr>objectType = Some ''comment''\<rparr>, actor = Some \<lparr>actor_id = Some ''p1''\<rparr>,
        published = Some ''now''\<rparr>)
      (run (\<lambda>x. x) [GetRoomActivities ''room-1'', Watch 0 1, GetRoomActivities ''room-2'', Watch 1 2] init)) (0, 1) = [Placeholder] \<and>
   current (subjects (trigger_activity (\<lambda>x. x) (Some \<lparr>activity_id = Some ''a1'', target = Some \<lparr>target_id = Some ''room-2''\<rparr>,
        object = Some \<lparr>objectType = Some ''comment''\<rparr>, actor = Some \<lparr>actor_id = Some ''p1''\<rparr>,
        published = Some ''now''\<rparr>)
      (run (\<lambda>x. x) [GetRoomActivities ''room-1'', Watch 0 1, GetRoomActivities ''room-2'', Watch 1 2] init)) ! 0) = Placeholder \<and>
   length (activity_inbox (trigger_activity (\<lambda>x. x) (Some \<lparr>activity_id = Some ''a1'', target = Some \<lparr>target_id = Some ''room-2''\<rparr>,
        object = Some \<lparr>objectType = Some ''comment''\<rparr>, actor = Some \<lparr>actor_id = Some ''p1''\<rparr>,
        published = Some ''now''\<rparr>)
      (run (\<lambda>x. x) [GetRoomActivities ''room-1'', Watch 0 1, GetRoomActivities ''room-2'', Watch 1 2] init)) (1, 2)) = 2"
proof -
  define s where "s = run (\<lambda>x. x) [GetRoomActivities ''room-1'', Watch 0 1, GetRoomActivities ''room-2'', Watch 1 2] init"
  define a where "a = \<lparr>activity_id = Some ''a1'', target = Some \<lparr>target_id = Some ''room-2''\<rparr>,
        object = Some \<lparr>objectType = Some ''comment''\<rparr>, actor = Some \<lparr>actor_id = Some ''p1''\<rparr>,
        published = Some ''now''\<rparr>"
  have 1: "getRoomActivitiesCache s ''room-1'' = Some 0" by (simp add: s_def eval_defs)
  have 2: "target a = Some \<lparr>target_id = Some ''room-2''\<rparr>" by (simp add: a_def)
  have 3: "target_id \<lparr>target_id = Some ''room-2''\<rparr> \<noteq> Some ((\<lambda>x. x) ''room-1'')" by simp
  have 4: "activity_inbox s (0, 1) = [Placeholder]" by (simp add: s_def eval_defs)
  have 5: "current (subjects s ! 0) = Placeholder" by (simp add: s_def eval_defs)
  have 6: "length (activity_inbox (trigger_activity (\<lambda>x. x) (Some a) s) (1, 2)) = 2"
    by (simp add: s_def a_def eval_defs)
  have 7: "getRoomActivities ''room-1'' s = (0, s)"
    using 1 by (simp add: getRoomActivities_hit)
  have 8: "subjects (trigger_activity (\<lambda>x. x) (Some a) s) ! 0 = subjects s ! 0 \<and>
           (\<forall>ob. activity_inbox (trigger_activity (\<lambda>x. x) (Some a) s) (0, ob) = activity_inbox s (0, ob))"
    using activity_stream_cached_and_filtered
         [of "''room-1''" init "\<lambda>x. x"
             "[GetRoomActivities ''room-1'', Watch 0 1, GetRoomActivities ''room-2'', Watch 1 2]"
             0 a "\<lparr>target_id = Some ''room-2''\<rparr>",
          THEN conjunct2, THEN conjunct2, folded s_def, rule_format, OF 1 2 3] .
  from 1 4 5 6 7 8
  have "getRoomActivitiesCache s ''room-1'' = Some 0 \<and>
        getRoomActivities ''room-1'' s = (0, s) \<and>
        activity_inbox (trigger_activity (\<lambda>x. x) (Some a) s) (0, 1) = [Placeholder] \<and>
        current (subjects (trigger_activity (\<lambda>x. x) (Some a) s) ! 0) = Placeholder \<and>
        length (activity_inbox (trigger_activity (\<lambda>x. x) (Some a) s) (1, 2)) = 2"
    by simp
  then show ?thesis by (simp only: s_def a_def)
qed

section \<open>Events that lack fields\<close>

lemma on_updated_no_match: "matches (room_id (streams s ! h)) ev = Inr False \<Longrightarrow> on_updated ev h s = s"
  by (simp add: on_updated_def split: option.splits phase.splits)

lemma fold_on_updated_no_id:
  "fold (on_updated (Some \<lparr>data = Some \<lparr>data_id = None\<rparr>\<rparr>)) hs s = s"
  by (induction hs) (simp_all add: on_updated_no_match matches_def)

lemma on_updated_no_data:
  "h < length (streams s) \<Longrightarrow> listening (streams s ! h) \<Longrightarrow>
   on_updated (Some \<lparr>data = None\<rparr>) h s = fail h TypeError s"
  by (auto simp: on_updated_def listening_def matches_def split: option.splits phase.splits)

lemma dispatch_dropped:
  "\<forall>(j, k) \<in> set hs. on_activity dec j ev = Inr None \<Longrightarrow> dispatch dec ev hs s = s"
  by (induction dec ev hs s rule: dispatch.induct) auto

lemma on_activity_no_target: "on_activity dec i (Some (a\<lparr>target := None\<rparr>)) = Inr None"
  by (simp add: on_activity_def)

text \<open>
  Claim C8, as stated: an update event or an activity event that lacks an expected field
  is dropped, no handler fails and no observer is affected. It does not hold. An
  \<open>updated\<close> event without \<open>data\<close> makes the predicate of \<open>filter\<close> throw in every stream that
  listens for updates; each of these streams ends with that error, which its observers
  receive, and is torn down. And the activity handler of a room throws on an event that
  has the room's target but no \<open>object\<close>.
\<close>

theorem update_without_data_ends_streams:
  "inbox (run (\<lambda>x. x)
      [GetRoom ''room-1'', Subscribe 0 1, Settle 0 (Fulfilled (Some \<lparr>sdk_id = ''room-1'', sdk_title = ''Standup'', sdk_type = ''group''\<rparr>)),
       Microtask 0 0, GetRoom ''room-2'', Subscribe 1 2,
       Settle 1 (Fulfilled (Some \<lparr>sdk_id = ''room-2'', sdk_title = ''Retro'', sdk_type = ''group''\<rparr>)),
       Microtask 1 1, RoomUpdated (Some \<lparr>data = None\<rparr>)] init) (0, 1) =
     [Next 0 \<lparr>ID = ''room-1'', title = ''Standup'', type = ''group''\<rparr>, Error TypeError] \<and>
   inbox (run (\<lambda>x. x)
      [GetRoom ''room-1'', Subscribe 0 1, Settle 0 (Fulfilled (Some \<lparr>sdk_id = ''room-1'', sdk_title = ''Standup'', sdk_type = ''group''\<rparr>)),
       Microtask 0 0, GetRoom ''room-2'', Subscribe 1 2,
       Settle 1 (Fulfilled (Some \<lparr>sdk_id = ''room-2'', sdk_title = ''Retro'', sdk_type = ''group''\<rparr>)),
       Microtask 1 1, RoomUpdated (Some \<lparr>data = None\<rparr>)] init) (1, 2) =
     [Next 1 \<lparr>ID = ''room-2'', title = ''Retro'', type = ''group''\<rparr>, Error TypeError] \<and>
   getRoomObservables (run (\<lambda>x. x)
      [GetRoom ''room-1'', Subscribe 0 1, Settle 0 (Fulfilled (Some \<lparr>sdk_id = ''room-1'', sdk_title = ''Standup'', sdk_type = ''group''\<rparr>)),
       Microtask 0 0, GetRoom ''room-2'', Subscribe 1 2,
       Settle 1 (Fulfilled (Some \<lparr>sdk_id = ''room-2'', sdk_title = ''Retro'', sdk_type = ''group''\<rparr>)),
       Microtask 1 1, RoomUpdated (Some \<lparr>data = None\<rparr>)] init) ''room-1'' = None \<and>
   on_activity (\<lambda>x. x) ''room-1''
     (Some \<lparr>activity_id = Some ''a1'', target = Some \<lparr>target_id = Some ''room-1''\<rparr>,
         object = None, actor = Some \<lparr>actor_id = Some ''p1''\<rparr>, published = Some ''now''\<rparr>) = Inl TypeError"
  by (simp add: eval_defs)

text \<open>
  Claim C8, amended: an event that lacks a field is dropped, without an exception and
  without any change of the adapter, its streams or their observers, when the field is one
  the handlers guard or never read: an \<open>updated\<close> event that has \<open>data\<close> but no \<open>id\<close> in it, an
  activity event without \<open>target\<close>, and, for the handler of a room, an activity event whose
  \<open>target.id\<close> is not the room's key, whatever else it lacks. An \<open>updated\<close> event without
  \<open>data\<close> is not dropped: the handler of every stream that listens for updates does not
  throw, but ends its stream with a \<open>TypeError\<close>, which every observer of the stream
  receives.
\<close>

theorem guarded_malformed_events_dropped:
  "trigger_updated (Some \<lparr>data = Some \<lparr>data_id = None\<rparr>\<rparr>) s = s \<and>
   on_activity dec i (Some (a\<lparr>target := None\<rparr>)) = Inr None \<and>
   trigger_activity dec (Some (a\<lparr>target := None\<rparr>)) s = s \<and>
   (target b = Some t \<longrightarrow> target_id t \<noteq> Some (dec i) \<longrightarrow> on_activity dec i (Some b) = Inr None) \<and>
   (h < length (streams s) \<longrightarrow> listening (streams s ! h) \<longrightarrow>
      on_updated (Some \<lparr>data = None\<rparr>) h s = fail h TypeError s \<and>
      thrown (on_updated (Some \<lparr>data = None\<rparr>) h s) = thrown s \<and>
      thrownError (streams (on_updated (Some \<lparr>data = None\<rparr>) h s) ! h) = Some TypeError \<and>
      (\<forall>ob \<in> set (observers (streams s ! h)).
         inbox (on_updated (Some \<lparr>data = None\<rparr>) h s) (h, ob) = inbox s (h, ob) @ [Error TypeError]))"
proof (intro conjI impI)
  show "trigger_updated (Some \<lparr>data = Some \<lparr>data_id = None\<rparr>\<rparr>) s = s"
    by (simp add: trigger_updated_def fold_on_updated_no_id)
  show "on_activity dec i (Some (a\<lparr>target := None\<rparr>)) = Inr None"
    by (rule on_activity_no_target)
  show "trigger_activity dec (Some (a\<lparr>target := None\<rparr>)) s = s"
    unfolding trigger_activity_def
    by (rule dispatch_dropped) (simp add: on_activity_no_target split: prod.splits)
next
  assume "target b = Some t" and "target_id t \<noteq> Some (dec i)"
  then show "on_activity dec i (Some b) = Inr None" by (rule on_activity_other_target)
next
  assume h: "h < length (streams s)" and l: "listening (streams s ! h)"
  then have e: "on_updated (Some \<lparr>data = None\<rparr>) h s = fail h TypeError s"
    by (rule on_updated_no_data)
  show "on_updated (Some \<lparr>data = None\<rparr>) h s = fail h TypeError s" by (rule e)
  show "thrown (on_updated (Some \<lparr>data = None\<rparr>) h s) = thrown s"
    using h by (simp add: e fail_eq)
  show "thrownError (streams (on_updated (Some \<lparr>data = None\<rparr>) h s) ! h) = Some TypeError"
    using h by (simp add: e fail_eq)
  show "\<forall>ob \<in> set (observers (streams s ! h)).
         inbox (on_updated (Some \<lparr>data = None\<rparr>) h s) (h, ob) = inbox s (h, ob) @ [Error TypeError]"
    using h by (simp add: e fail_eq deliver_same)
qed

theorem guarded_malformed_events_dropped_witness:
  "listening (streams (run (\<lambda>x. x)
      [GetRoom ''room-1'', Subscribe 0 1, Settle 0 (Fulfilled (Some \<lparr>sdk_id = ''room-1'', sdk_title = ''Standup'', sdk_type = ''group''\<rparr>)),
       Microtask 0 0] init) ! 0) \<and>
   on_activity (\<lambda>x. x) ''room-1''
     (Some \<lparr>activity_id = None, target = Some \<lparr>target_id = Some ''room-2''\<rparr>,
         object = None, actor = None, published = None\<rparr>) = Inr None \<and>
   inbox (on_updated (Some \<lparr>data = None\<rparr>) 0 (run (\<lambda>x. x)
      [GetRoom ''room-1'', Subscribe 0 1, Settle 0 (Fulfilled (Some \<lparr>sdk_id = ''room-1'', sdk_title = ''Standup'', sdk_type = ''group''\<rparr>)),
       Microtask 0 0] init)) (0, 1) =
     [Next 0 \<lparr>ID = ''room-1'', title = ''Standup'', type = ''group''\<rparr>, Error TypeError]"
proof -
  define s where "s = run (\<lambda>x. x)
      [GetRoom ''room-1'', Subscribe 0 1, Settle 0 (Fulfilled (Some \<lparr>sdk_id = ''room-1'', sdk_title = ''Standup'', sdk_type = ''group''\<rparr>)),
       Microtask 0 0] init"
  define b where "b = \<lparr>activity_id = None, target = Some \<lparr>target_id = Some ''room-2''\<rparr>,
         object = None, actor = None, published = None\<rparr>"
  have 1: "0 < length (streams s)" by (simp add: s_def eval_defs)
  have 2: "listening (streams s ! 0)" by (simp add: s_def eval_defs listening_def)
  have 3: "target b = Some \<lparr>target_id = Some ''room-2''\<rparr>" by (simp add: b_def)
  have 4: "target_id \<lparr>target_id = Some ''room-2''\<rparr> \<noteq> Some ((\<lambda>x. x) ''room-1'')" by simp
  have 5: "observers (streams s ! 0) = [1]" by (simp add: s_def eval_defs)
  have 6: "inbox s (0, 1) = [Next 0 \<lparr>ID = ''room-1'', title = ''Standup'', type = ''group''\<rparr>]"
    by (simp add: s_def eval_defs)
  note th = guarded_malformed_events_dropped
              [of s "\<lambda>x. x" "''room-1''" b b "\<lparr>target_id = Some ''room-2''\<rparr>" 0]
  from th 3 4 have 7: "on_activity (\<lambda>x. x) ''room-1'' (Some b) = Inr None" by blast
  from th 1 2 have "\<forall>ob \<in> set (observers (streams s ! 0)).
         inbox (on_updated (Some \<lparr>data = None\<rparr>) 0 s) (0, ob) = inbox s (0, ob) @ [Error TypeError]"
    by blast
  with 5 6 have 8: "inbox (on_updated (Some \<lparr>data = None\<rparr>) 0 s) (0, 1) =
     [Next 0 \<lparr>ID = ''room-1'', title = ''Standup'', type = ''group''\<rparr>, Error TypeError]"
    by simp
  from 2 7 8 have "listening (streams s ! 0) \<and>
     on_activity (\<lambda>x. x) ''room-1'' (Some b) = Inr None \<and>
     inbox (on_updated (Some \<lparr>data = None\<rparr>) 0 s) (0, 1) =
       [Next 0 \<lparr>ID = ''room-1'', title = ''Standup'', type = ''group''\<rparr>, Error TypeError]"
    by blast
  then show ?thesis by (simp only: s_def b_def)
qed

end
